theory Spec2Isabelle
  imports Complex_Main "HOL-Library.Multiset" "HOL-Library.Log_Nat"
begin

section \<open>Configuration constants of the generator (script.py)\<close>

definition NUM_CATEGORIES :: nat where "NUM_CATEGORIES = 100"
definition VENDOR_COUNT :: nat where "VENDOR_COUNT = 100"
definition ATTRIBUTES_PER_PRODUCT :: nat where "ATTRIBUTES_PER_PRODUCT = 3"
definition SPLIT_PARTS :: nat where "SPLIT_PARTS = 4"
definition PRODUCTS_PER_FILE :: nat where "PRODUCTS_PER_FILE = 2500000"
definition TOTAL_PRODUCTS :: nat where "TOTAL_PRODUCTS = PRODUCTS_PER_FILE * SPLIT_PARTS"

definition WORDS :: "string list" where
  "WORDS = [''Electronics'', ''Apparel'', ''HomeGoods'', ''Tools'', ''Books'', ''Software'', ''Sporting'']"
definition PHRASES :: "string list" where
  "PHRASES = [''Ultimate Pro Gadget'', ''Smart Home Device'', ''Vintage Look Accessory'',
              ''High Performance Tool'', ''Economical Choice'']"
definition RAMS :: "nat list" where "RAMS = [8, 16, 32, 64]"
definition STORAGES :: "nat list" where "STORAGES = [128, 256, 512, 1024]"
definition COLORS :: "string list" where
  "COLORS = [''Red'', ''Blue'', ''Green'', ''Black'', ''White'', ''Silver'']"

section \<open>Python values\<close>

text \<open>
  The values the two scripts handle: JSON-like data. A dict is an association list in
  insertion order with string keys (all dicts of the generator, and every BSON document
  the test runner receives, have string keys). A float is modelled by the rational value
  of a finite IEEE double.
\<close>

datatype pyval =
    PNone
  | PBool bool
  | PInt int
  | PFloat rat
  | PStr string
  | PList "pyval list"
  | PDict "(string \<times> pyval) list"

text \<open>\<^verbatim>\<open>d[k]\<close> on a dict, as an option (None where Python raises KeyError).\<close>

fun dict_get :: "(string \<times> pyval) list \<Rightarrow> string \<Rightarrow> pyval option" where
  "dict_get [] k = None"
| "dict_get ((k', v) # d) k = (if k' = k then Some v else dict_get d k)"

text \<open>\<^verbatim>\<open>d[k] = v\<close>: overwrite in place, or append a new key at the end.\<close>

fun dict_set :: "(string \<times> pyval) list \<Rightarrow> string \<Rightarrow> pyval \<Rightarrow> (string \<times> pyval) list" where
  "dict_set [] k v = [(k, v)]"
| "dict_set ((k', v') # d) k v = (if k' = k then (k, v) # d else (k', v') # dict_set d k v)"

definition dict_keys :: "(string \<times> pyval) list \<Rightarrow> string list" where
  "dict_keys d = map fst d"

section \<open>Decimal text of integers\<close>

definition digit_char :: "nat \<Rightarrow> char" where
  "digit_char d = char_of (48 + d)"

fun str_nat :: "nat \<Rightarrow> string" where
  "str_nat n = (if n < 10 then [digit_char n] else str_nat (n div 10) @ [digit_char (n mod 10)])"

declare str_nat.simps [simp del]

definition str_int :: "int \<Rightarrow> string" where
  "str_int i = (if i < 0 then CHR ''-'' # str_nat (nat (- i)) else str_nat (nat i))"

section \<open>The random source\<close>

text \<open>
  Python's global \<^verbatim>\<open>random\<close> state is an explicit argument: an infinite tape of raw
  draws. Each library call consumes one cell and returns the rest of the tape. Since the
  tape is arbitrary, every behaviour of the real generator is covered.
\<close>

type_synonym rng = "nat \<Rightarrow> nat"

definition rng_next :: "rng \<Rightarrow> nat \<times> rng" where
  "rng_next g = (g 0, \<lambda>i. g (Suc i))"

text \<open>\<^verbatim>\<open>random.randrange(n)\<close> for \<open>n > 0\<close>: an integer in \<open>[0, n)\<close>.\<close>

definition randrange :: "nat \<Rightarrow> rng \<Rightarrow> nat \<times> rng" where
  "randrange n g = (case rng_next g of (x, g') \<Rightarrow> (x mod n, g'))"

text \<open>\<^verbatim>\<open>random.choice(seq)\<close> is \<^verbatim>\<open>seq[randbelow(len(seq))]\<close>; the sequences here are the
  non-empty vocabulary tables.\<close>

definition choice :: "'a list \<Rightarrow> rng \<Rightarrow> 'a \<times> rng" where
  "choice xs g = (case randrange (length xs) g of (i, g') \<Rightarrow> (xs ! i, g'))"

text \<open>\<^verbatim>\<open>random.random()\<close>: a double \<open>k / 2^53\<close> with \<open>0 \<le> k < 2^53\<close>.\<close>

definition py_random :: "rng \<Rightarrow> rat \<times> rng" where
  "py_random g = (case rng_next g of (x, g') \<Rightarrow> (of_nat (x mod 2 ^ 53) / 2 ^ 53, g'))"

section \<open>Double-precision arithmetic\<close>

text \<open>Round to the nearest integer, ties to the even one.\<close>

definition round_half_even :: "rat \<Rightarrow> int" where
  "round_half_even x =
     (let f = \<lfloor>x\<rfloor>; d = x - of_int f
      in if d < 1 / 2 then f else if 1 / 2 < d then f + 1 else if even f then f else f + 1)"

text \<open>The binary exponent of a positive rational: the \<open>e\<close> with \<open>2^e \<le> x < 2^(e+1)\<close>.\<close>

definition bexp :: "rat \<Rightarrow> int" where
  "bexp x = (if 1 \<le> x then int (floorlog 2 (nat \<lfloor>x\<rfloor>)) - 1
             else - int (floorlog 2 (nat (\<lceil>1 / x\<rceil> - 1))))"

text \<open>
  The double nearest to a rational (round to nearest, ties to even): 53 significant bits,
  and no bit below \<open>2^-1074\<close>. Overflow to infinity (magnitudes from \<open>2^1024\<close>) is not
  modelled; the program's floats lie in \<open>[0, 5000]\<close>.
\<close>

definition fl_pos :: "rat \<Rightarrow> rat" where
  "fl_pos x =
     (let e = bexp x
      in if e \<le> 52
         then (let k = nat (min (52 - e) 1074) in of_int (round_half_even (x * 2 ^ k)) / 2 ^ k)
         else (let j = nat (e - 52) in of_int (round_half_even (x / 2 ^ j)) * 2 ^ j))"

definition fl :: "rat \<Rightarrow> rat" where
  "fl x = (if x = 0 then 0 else if 0 < x then fl_pos x else - fl_pos (- x))"

text \<open>\<^verbatim>\<open>random.uniform(a, b)\<close> is \<^verbatim>\<open>a + (b - a) * self.random()\<close>, each operation rounded.\<close>

definition uniform :: "rat \<Rightarrow> rat \<Rightarrow> rng \<Rightarrow> rat \<times> rng" where
  "uniform a b g = (case py_random g of (u, g') \<Rightarrow> (fl (a + fl (fl (b - a) * u)), g'))"

text \<open>\<^verbatim>\<open>round(x, ndigits)\<close> on a float: the exact value of \<open>x\<close> is rounded to \<open>ndigits\<close>
  decimals (ties to even), and the double nearest to that decimal is returned.\<close>

definition py_round :: "rat \<Rightarrow> nat \<Rightarrow> rat" where
  "py_round x nd = fl (of_int (round_half_even (x * 10 ^ nd)) / 10 ^ nd)"

section \<open>Random Record Builder\<close>

definition get_random_word :: "rng \<Rightarrow> string \<times> rng" where
  "get_random_word g = choice WORDS g"

definition get_random_phrase :: "rng \<Rightarrow> string \<times> rng" where
  "get_random_phrase g = choice PHRASES g"

definition generate_attribute :: "nat \<Rightarrow> rng \<Rightarrow> pyval \<times> rng" where
  "generate_attribute attribute_index g =
     (if attribute_index = 0 then
        (case choice RAMS g of (r, g') \<Rightarrow>
           (PDict [(''k'', PStr ''RAM''), (''v'', PStr (str_nat r @ ''GB''))], g'))
      else if attribute_index = 1 then
        (case choice STORAGES g of (s, g') \<Rightarrow>
           (PDict [(''k'', PStr ''Storage''), (''v'', PStr (str_nat s @ ''GB SSD''))], g'))
      else
        (case choice COLORS g of (c, g') \<Rightarrow>
           (PDict [(''k'', PStr ''Color''), (''v'', PStr c)], g')))"

text \<open>The list comprehension \<^verbatim>\<open>[generate_attribute(i) for i in range(n)]\<close>, threading the
  random source through the calls in order.\<close>

fun generate_attributes :: "nat list \<Rightarrow> rng \<Rightarrow> pyval list \<times> rng" where
  "generate_attributes [] g = ([], g)"
| "generate_attributes (i # is) g =
     (case generate_attribute i g of (a, g') \<Rightarrow>
        (case generate_attributes is g' of (as, g'') \<Rightarrow> (a # as, g'')))"

text \<open>Returns \<open>((product, vendor_id, category_id), rng)\<close>. The draws happen in the order of
  the source: attributes, vendor, category, then name, price and rating as the dict
  literal is evaluated.\<close>

definition generate_product_json :: "int \<Rightarrow> rng \<Rightarrow> (pyval \<times> nat \<times> nat) \<times> rng" where
  "generate_product_json global_product_id g0 =
     (case generate_attributes [0..<ATTRIBUTES_PER_PRODUCT] g0 of (attributes, g1) \<Rightarrow>
      case randrange VENDOR_COUNT g1 of (vendor_id, g2) \<Rightarrow>
      case randrange NUM_CATEGORIES g2 of (category_id, g3) \<Rightarrow>
      case get_random_phrase g3 of (name, g4) \<Rightarrow>
      case uniform 10 5000 g4 of (p, g5) \<Rightarrow>
      case uniform 3 5 g5 of (r, g6) \<Rightarrow>
        ((PDict [(''name'', PStr name),
                 (''price'', PFloat (py_round p 2)),
                 (''rating'', PFloat (py_round r 1)),
                 (''attributs'', PList attributes),
                 (''category_id'', PInt (int category_id)),
                 (''vendor_id'', PInt (int vendor_id)),
                 (''product_id'', PInt global_product_id)],
          vendor_id, category_id), g6))"

section \<open>JSON text: \<^verbatim>\<open>json.dumps\<close>\<close>

text \<open>Joining strings with a separator (\<^verbatim>\<open>sep.join(xs)\<close>).\<close>

fun join :: "string \<Rightarrow> string list \<Rightarrow> string" where
  "join sep [] = []"
| "join sep [x] = x"
| "join sep (x # y # ys) = x @ sep @ join sep (y # ys)"

definition hex_char :: "nat \<Rightarrow> char" where
  "hex_char d = (if d < 10 then char_of (48 + d) else char_of (87 + d))"

text \<open>The escape of one character of a string under \<^verbatim>\<open>ensure_ascii=True\<close>: the named
  escapes, the printable ASCII characters as they are, \<^verbatim>\<open>\u00XX\<close> for the rest.\<close>

definition escape_char :: "char \<Rightarrow> string" where
  "escape_char c =
     (if c = CHR 0x5C then [CHR 0x5C, CHR 0x5C]
      else if c = CHR 0x22 then [CHR 0x5C, CHR 0x22]
      else if c = CHR 0x08 then [CHR 0x5C, CHR ''b'']
      else if c = CHR 0x0C then [CHR 0x5C, CHR ''f'']
      else if c = CHR 0x0A then [CHR 0x5C, CHR ''n'']
      else if c = CHR 0x0D then [CHR 0x5C, CHR ''r'']
      else if c = CHR 0x09 then [CHR 0x5C, CHR ''t'']
      else if 32 \<le> (of_char c :: nat) \<and> (of_char c :: nat) \<le> 126 then [c]
      else [CHR 0x5C, CHR ''u'', CHR ''0'', CHR ''0'',
            hex_char ((of_char c :: nat) div 16), hex_char ((of_char c :: nat) mod 16)])"

definition dumps_str :: "string \<Rightarrow> string" where
  "dumps_str s = CHR 0x22 # concat (map escape_char s) @ [CHR 0x22]"

text \<open>The decimal exponent of a positive rational: the \<open>d\<close> with \<open>10^d \<le> x < 10^(d+1)\<close>.\<close>

definition dexp10 :: "rat \<Rightarrow> int" where
  "dexp10 x = (if 1 \<le> x then int (floorlog 10 (nat \<lfloor>x\<rfloor>)) - 1
               else - int (floorlog 10 (nat (\<lceil>1 / x\<rceil> - 1))))"

text \<open>The integer of the first \<open>n\<close> significant decimal digits of \<open>x\<close>, rounded, and the
  decimal it stands for.\<close>

definition sig_mantissa :: "rat \<Rightarrow> nat \<Rightarrow> nat" where
  "sig_mantissa x n = nat (round_half_even (x * 10 powi (int n - 1 - dexp10 x)))"

definition round_sig :: "rat \<Rightarrow> nat \<Rightarrow> rat" where
  "round_sig x n = of_nat (sig_mantissa x n) / 10 powi (int n - 1 - dexp10 x)"

text \<open>\<^verbatim>\<open>repr\<close> of a float prints the shortest digit string that reads back as the same
  double; 17 significant digits always do.\<close>

definition shortest_digits :: "rat \<Rightarrow> nat" where
  "shortest_digits x = (case find (\<lambda>n. fl (round_sig x n) = x) [1..<18] of Some n \<Rightarrow> n | None \<Rightarrow> 17)"

fun strip_zeros_rev :: "string \<Rightarrow> string" where
  "strip_zeros_rev [] = []"
| "strip_zeros_rev (c # cs) = (if c = CHR ''0'' \<and> cs \<noteq> [] then strip_zeros_rev cs else c # cs)"

definition strip_zeros :: "string \<Rightarrow> string" where
  "strip_zeros ds = rev (strip_zeros_rev (rev ds))"

text \<open>The digits \<open>D\<close> and the position \<open>decpt\<close> of the decimal point: the value printed is
  \<open>0.D * 10^decpt\<close>.\<close>

definition float_digits :: "rat \<Rightarrow> string \<times> int" where
  "float_digits x =
     (let n = shortest_digits x; ds = str_nat (sig_mantissa x n)
      in (strip_zeros ds, dexp10 x + 1 + int (length ds) - int n))"

definition float_repr_pos :: "rat \<Rightarrow> string" where
  "float_repr_pos x =
     (case float_digits x of (D, decpt) \<Rightarrow>
        if - 4 < decpt \<and> decpt \<le> 16 then
          (if decpt \<le> 0 then ''0.'' @ replicate (nat (- decpt)) CHR ''0'' @ D
           else if int (length D) \<le> decpt then D @ replicate (nat decpt - length D) CHR ''0'' @ ''.0''
           else take (nat decpt) D @ ''.'' @ drop (nat decpt) D)
        else
          take 1 D @ (if 1 < length D then ''.'' @ drop 1 D else [])
          @ ''e'' @ (if decpt - 1 < 0 then ''-'' else ''+'')
          @ (if \<bar>decpt - 1\<bar> < 10 then ''0'' else []) @ str_nat (nat \<bar>decpt - 1\<bar>))"

text \<open>\<^verbatim>\<open>float.__repr__\<close> for a finite double (negative zero, infinities and NaN are not
  modelled).\<close>

definition float_repr :: "rat \<Rightarrow> string" where
  "float_repr x = (if x = 0 then ''0.0'' else if 0 < x then float_repr_pos x
                   else CHR ''-'' # float_repr_pos (- x))"

text \<open>\<^verbatim>\<open>json.dumps(v)\<close> with the default separators \<^verbatim>\<open>", "\<close> and \<^verbatim>\<open>": "\<close>.\<close>

fun dumps :: "pyval \<Rightarrow> string" where
  "dumps PNone = ''null''"
| "dumps (PBool b) = (if b then ''true'' else ''false'')"
| "dumps (PInt i) = str_int i"
| "dumps (PFloat x) = float_repr x"
| "dumps (PStr s) = dumps_str s"
| "dumps (PList vs) = ''['' @ join '', '' (map dumps vs) @ '']''"
| "dumps (PDict d) =
     ''{'' @ join '', '' (map (\<lambda>kv. dumps_str (fst kv) @ '': '' @ dumps (snd kv)) d) @ ''}''"

section \<open>Errors, the log, and partition files\<close>

datatype error = OSError | TypeError | KeyError | AttributeError

text \<open>
  Each \<^verbatim>\<open>print\<close> of the generator is a log event carrying the values the message
  interpolates (the elapsed wall-clock time of the "Finished" and "Total execution time"
  lines is not modelled):
  \<^item> \<open>GeneratingProducts n idx\<close>: \<^verbatim>\<open>-> Generating {n} products for File {idx}...\<close>
  \<^item> \<open>ErrorWritingFile idx e\<close>: \<^verbatim>\<open>Error writing file {idx}: {e}\<close>
  \<^item> \<open>FinishedFile idx n\<close>: \<^verbatim>\<open><- Finished File {idx}. Saved {n} products in ...s.\<close>
  \<^item> \<open>BaseDataCountsUpdated\<close>: \<^verbatim>\<open>--- Base Data Counts Updated Successfully ---\<close>
  \<^item> \<open>StartingGeneration\<close>, \<open>TotalToGenerate total n\<close>, \<open>UsingProcesses\<close>: the three
    opening lines of \<^verbatim>\<open>run_interleaved_generation\<close>
  \<^item> \<open>GeneratingStructureFiles\<close>, \<open>GenerationComplete\<close>, \<open>FileSavedTo i\<close>,
    \<open>TotalExecutionTime\<close>: the lines of the main block.
\<close>

datatype log_event =
    GeneratingProducts nat nat
  | ErrorWritingFile nat error
  | FinishedFile nat nat
  | BaseDataCountsUpdated
  | StartingGeneration
  | TotalToGenerate nat nat
  | UsingProcesses
  | GeneratingStructureFiles
  | GenerationComplete
  | FileSavedTo nat
  | TotalExecutionTime

text \<open>
  A partition file being written: the text accepted so far and the number of file
  operations done on it. The environment of one partition says which of its file
  operations (open is operation 0, then each write, then the close at the end of the
  \<^verbatim>\<open>with\<close> block) raises \<^verbatim>\<open>OSError\<close>.
\<close>

record pfile =
  content :: string
  ops :: nat

type_synonym io = "nat \<Rightarrow> bool"

definition f_open :: "io \<Rightarrow> error + pfile" where
  "f_open io = (if io 0 then Inl OSError else Inr \<lparr>content = [], ops = 1\<rparr>)"

definition f_write :: "io \<Rightarrow> pfile \<Rightarrow> string \<Rightarrow> error + pfile" where
  "f_write io f s =
     (if io (ops f) then Inl OSError else Inr \<lparr>content = content f @ s, ops = ops f + 1\<rparr>)"

definition f_close :: "io \<Rightarrow> pfile \<Rightarrow> error + pfile" where
  "f_close io f = (if io (ops f) then Inl OSError else Inr (f\<lparr>ops := ops f + 1\<rparr>))"

section \<open>Count dictionaries\<close>

text \<open>A \<^verbatim>\<open>defaultdict(int)\<close> with integer keys, in insertion order.\<close>

type_synonym counts = "(int \<times> int) list"

text \<open>\<^verbatim>\<open>d[k] += c\<close>\<close>

fun dd_add :: "counts \<Rightarrow> int \<Rightarrow> int \<Rightarrow> counts" where
  "dd_add [] k c = [(k, c)]"
| "dd_add ((k', v) # d) k c = (if k' = k then (k', v + c) # d else (k', v) # dd_add d k c)"

text \<open>Reading \<^verbatim>\<open>d[k]\<close>: the stored value, or 0 for a missing key.\<close>

fun dd_lookup :: "counts \<Rightarrow> int \<Rightarrow> int" where
  "dd_lookup [] k = 0"
| "dd_lookup ((k', v) # d) k = (if k' = k then v else dd_lookup d k)"

section \<open>Partition Writer\<close>

record wstate =
  w_rng :: rng
  w_vendor_counts :: counts
  w_category_counts :: counts
  w_file :: pfile

text \<open>One iteration of the loop \<^verbatim>\<open>for i in range(PRODUCTS_PER_FILE)\<close>.\<close>

definition write_product :: "io \<Rightarrow> int \<Rightarrow> nat \<Rightarrow> wstate \<Rightarrow> error + wstate" where
  "write_product io start_product_id i s =
     (case generate_product_json (start_product_id + int i) (w_rng s) of
        ((product, vendor_id, category_id), g') \<Rightarrow>
          (case (if 0 < i then f_write io (w_file s) [CHR '','', CHR 0x0A] else Inr (w_file s)) of
             Inl e \<Rightarrow> Inl e
           | Inr f1 \<Rightarrow>
               (case f_write io f1 (dumps product) of
                  Inl e \<Rightarrow> Inl e
                | Inr f2 \<Rightarrow>
                    Inr \<lparr>w_rng = g',
                         w_vendor_counts = dd_add (w_vendor_counts s) (int vendor_id) 1,
                         w_category_counts = dd_add (w_category_counts s) (int category_id) 1,
                         w_file = f2\<rparr>)))"

fun write_products :: "io \<Rightarrow> int \<Rightarrow> nat list \<Rightarrow> wstate \<Rightarrow> error + wstate" where
  "write_products io start_product_id [] s = Inr s"
| "write_products io start_product_id (i # is) s =
     (case write_product io start_product_id i s of
        Inl e \<Rightarrow> Inl e
      | Inr s' \<Rightarrow> write_products io start_product_id is s')"

text \<open>The returned dict \<^verbatim>\<open>{"file_index", "category_counts", "vendor_counts"}\<close>.\<close>

record tally =
  file_index :: nat
  category_counts :: counts
  vendor_counts :: counts

text \<open>What one call leaves behind: its log lines, the finished artifact (\<open>None\<close> when the
  call failed: what is then on disk is not modelled), and the value it returns
  (\<open>None\<close> is Python's \<^verbatim>\<open>None\<close>).\<close>

record part_out =
  p_log :: "log_event list"
  p_artifact :: "string option"
  p_result :: "tally option"

definition write_file :: "io \<Rightarrow> rng \<Rightarrow> int \<Rightarrow> error + wstate" where
  "write_file io g start_product_id =
     (case f_open io of
        Inl e \<Rightarrow> Inl e
      | Inr f0 \<Rightarrow>
     (case f_write io f0 [CHR ''['', CHR 0x0A] of
        Inl e \<Rightarrow> Inl e
      | Inr f1 \<Rightarrow>
     (case write_products io start_product_id [0..<PRODUCTS_PER_FILE]
             \<lparr>w_rng = g, w_vendor_counts = [], w_category_counts = [], w_file = f1\<rparr> of
        Inl e \<Rightarrow> Inl e
      | Inr s \<Rightarrow>
     (case f_write io (w_file s) [CHR 0x0A, CHR '']''] of
        Inl e \<Rightarrow> Inl e
      | Inr f2 \<Rightarrow>
     (case f_close io f2 of
        Inl e \<Rightarrow> Inl e
      | Inr f3 \<Rightarrow> Inr (s\<lparr>w_file := f3\<rparr>))))))"

definition generate_interleaved_products_for_file :: "io \<Rightarrow> rng \<Rightarrow> nat \<Rightarrow> int \<Rightarrow> part_out" where
  "generate_interleaved_products_for_file io g file_part_index start_product_id =
     (case write_file io g start_product_id of
        Inl e \<Rightarrow>
          \<lparr>p_log = [GeneratingProducts PRODUCTS_PER_FILE file_part_index,
                    ErrorWritingFile file_part_index e],
           p_artifact = None,
           p_result = None\<rparr>
      | Inr s \<Rightarrow>
          \<lparr>p_log = [GeneratingProducts PRODUCTS_PER_FILE file_part_index,
                    FinishedFile file_part_index PRODUCTS_PER_FILE],
           p_artifact = Some (content (w_file s)),
           p_result = Some \<lparr>file_index = file_part_index,
                             category_counts = w_category_counts s,
                             vendor_counts = w_vendor_counts s\<rparr>\<rparr>)"

section \<open>Base Catalog Initializer\<close>

text \<open>
  The two catalog files hold JSON written by \<^verbatim>\<open>json.dump\<close> and read back by
  \<^verbatim>\<open>json.load\<close>; the store keeps the value (\<open>None\<close>: the file does not exist).
  Each access to a catalog file is three file operations: the file is opened, read or
  written in one piece, and closed at the end of its \<^verbatim>\<open>with\<close> block. The environment of
  the main process says which of its file operations, counted from 0 within a call, raise
  \<^verbatim>\<open>OSError\<close>; \<open>k\<close> is the number of the access's first operation. A call that raises
  returns \<open>Inl\<close>: the run ends there, and the state the files are left in is not modelled.
\<close>

record fs =
  categories_file :: "pyval option"
  vendors_file :: "pyval option"

definition write_json :: "io \<Rightarrow> nat \<Rightarrow> pyval \<Rightarrow> error + pyval option" where
  "write_json cio k v = (if cio k \<or> cio (k + 1) \<or> cio (k + 2) then Inl OSError else Inr (Some v))"

definition read_json :: "io \<Rightarrow> nat \<Rightarrow> pyval option \<Rightarrow> error + pyval" where
  "read_json cio k file =
     (case file of
        None \<Rightarrow> Inl OSError
      | Some v \<Rightarrow> if cio k \<or> cio (k + 1) \<or> cio (k + 2) then Inl OSError else Inr v)"

fun append_categories :: "nat list \<Rightarrow> pyval list \<Rightarrow> rng \<Rightarrow> pyval list \<times> rng" where
  "append_categories [] categories_data g = (categories_data, g)"
| "append_categories (i # is) categories_data g =
     (case get_random_word g of (w, g') \<Rightarrow>
        append_categories is
          (categories_data @
             [PDict [(''_id'', PInt (int i)),
                     (''label'', PStr (''Category Label '' @ str_nat i @ '' - '' @ w)),
                     (''products_count'', PInt 0)]]) g')"

fun append_vendors :: "nat list \<Rightarrow> pyval list \<Rightarrow> pyval list" where
  "append_vendors [] vendors_data = vendors_data"
| "append_vendors (i # is) vendors_data =
     append_vendors is
       (vendors_data @
          [PDict [(''_id'', PInt (int i)),
                  (''full_name'', PStr (''Vendor Company '' @ str_nat i)),
                  (''products_count'', PInt 0)]])"

text \<open>Returns the two lists as the call leaves them, the files it wrote, and the random
  source; or the error of a failed file operation (operations 0 to 2 are on
  \<^verbatim>\<open>categories.json\<close>, 3 to 5 on \<^verbatim>\<open>vendors.json\<close>).\<close>

definition generate_base_data ::
  "io \<Rightarrow> pyval list \<Rightarrow> pyval list \<Rightarrow> rng \<Rightarrow> error + pyval list \<times> pyval list \<times> fs \<times> rng" where
  "generate_base_data cio categories_data vendors_data g =
     (case append_categories [0..<NUM_CATEGORIES] categories_data g of (cd, g') \<Rightarrow>
        (let vd = append_vendors [0..<VENDOR_COUNT] vendors_data
         in (case write_json cio 0 (PList cd) of
               Inl e \<Rightarrow> Inl e
             | Inr cf \<Rightarrow>
            (case write_json cio 3 (PList vd) of
               Inl e \<Rightarrow> Inl e
             | Inr vf \<Rightarrow> Inr (cd, vd, \<lparr>categories_file = cf, vendors_file = vf\<rparr>, g')))))"

section \<open>Parallel Orchestrator\<close>

fun build_tasks :: "nat list \<Rightarrow> int \<Rightarrow> (nat \<times> int) list" where
  "build_tasks [] current_product_id = []"
| "build_tasks (i # is) current_product_id =
     (i, current_product_id) # build_tasks is (current_product_id + int PRODUCTS_PER_FILE)"

definition tasks :: "(nat \<times> int) list" where
  "tasks = build_tasks [1..<SPLIT_PARTS + 1] 0"

text \<open>
  Every task runs in a worker process of the pool. The environment gives, for each file
  index, the I/O behaviour of its file and the state of its process's random source at the
  moment the task starts. That state is arbitrary: it may have been advanced by tasks the
  same process ran before, so nothing is assumed about how the states of different tasks
  relate. \<open>order\<close> is the order in which the futures complete: positions in the task list.
  The worker catches every \<^verbatim>\<open>Exception\<close> itself, so \<^verbatim>\<open>future.result()\<close> returns its value.
\<close>

type_synonym env = "nat \<Rightarrow> io \<times> rng"

definition worker :: "env \<Rightarrow> nat \<times> int \<Rightarrow> part_out" where
  "worker ev t = generate_interleaved_products_for_file (fst (ev (fst t))) (snd (ev (fst t))) (fst t) (snd t)"

record run_out =
  r_log :: "log_event list"
  r_parts :: "part_out list"
  r_results :: "tally option list"

definition run_interleaved_generation :: "env \<Rightarrow> nat list \<Rightarrow> run_out" where
  "run_interleaved_generation ev order =
     (let futures = map (worker ev) tasks;
          completed = map (\<lambda>k. p_result (futures ! k)) order
      in \<lparr>r_log = [StartingGeneration, TotalToGenerate TOTAL_PRODUCTS PRODUCTS_PER_FILE, UsingProcesses],
          r_parts = futures,
          r_results = filter (\<lambda>result. result \<noteq> None) completed\<rparr>)"

section \<open>Count Reconciler\<close>

definition aggregate_result :: "counts \<times> counts \<Rightarrow> tally option \<Rightarrow> counts \<times> counts" where
  "aggregate_result totals result =
     (case result of
        None \<Rightarrow> totals
      | Some r \<Rightarrow>
          (case totals of (total_vendor_counts, total_category_counts) \<Rightarrow>
             (let tc = fold (\<lambda>(cat_id, count) t. dd_add t cat_id count) (category_counts r) total_category_counts;
                  tv = fold (\<lambda>(ven_id, count) t. dd_add t ven_id count) (vendor_counts r) total_vendor_counts
              in (tv, tc))))"

definition aggregate :: "tally option list \<Rightarrow> counts \<times> counts" where
  "aggregate results = fold (\<lambda>result totals. aggregate_result totals result) results ([], [])"

text \<open>\<^verbatim>\<open>x[k]\<close> and \<^verbatim>\<open>x[k] = v\<close> for a string \<open>k\<close>: only a dict takes a string subscript.\<close>

definition py_getitem :: "pyval \<Rightarrow> string \<Rightarrow> error + pyval" where
  "py_getitem x k =
     (case x of
        PDict d \<Rightarrow> (case dict_get d k of None \<Rightarrow> Inl KeyError | Some v \<Rightarrow> Inr v)
      | _ \<Rightarrow> Inl TypeError)"

definition py_setitem :: "pyval \<Rightarrow> string \<Rightarrow> pyval \<Rightarrow> error + pyval" where
  "py_setitem x k v = (case x of PDict d \<Rightarrow> Inr (PDict (dict_set d k v)) | _ \<Rightarrow> Inl TypeError)"

text \<open>Reading a \<^verbatim>\<open>defaultdict(int)\<close> of integer keys at an arbitrary value: lists and dicts
  are unhashable; \<^verbatim>\<open>True\<close>, \<^verbatim>\<open>False\<close> and integral floats equal the integer of the same
  value; any other key is missing.\<close>

definition dd_getitem :: "counts \<Rightarrow> pyval \<Rightarrow> error + int" where
  "dd_getitem t key =
     (case key of
        PInt i \<Rightarrow> Inr (dd_lookup t i)
      | PBool b \<Rightarrow> Inr (dd_lookup t (if b then 1 else 0))
      | PFloat x \<Rightarrow> Inr (if of_int \<lfloor>x\<rfloor> = x then dd_lookup t \<lfloor>x\<rfloor> else 0)
      | PStr _ \<Rightarrow> Inr 0
      | PNone \<Rightarrow> Inr 0
      | PList _ \<Rightarrow> Inl TypeError
      | PDict _ \<Rightarrow> Inl TypeError)"

text \<open>The loop \<^verbatim>\<open>for cat in data: cat["products_count"] = totals[cat["_id"]]\<close>.\<close>

fun update_counts :: "counts \<Rightarrow> pyval list \<Rightarrow> error + pyval list" where
  "update_counts t [] = Inr []"
| "update_counts t (cat # cats) =
     (case py_getitem cat ''_id'' of
        Inl e \<Rightarrow> Inl e
      | Inr cat_id \<Rightarrow>
     (case dd_getitem t cat_id of
        Inl e \<Rightarrow> Inl e
      | Inr c \<Rightarrow>
     (case py_setitem cat ''products_count'' (PInt c) of
        Inl e \<Rightarrow> Inl e
      | Inr cat' \<Rightarrow>
     (case update_counts t cats of
        Inl e \<Rightarrow> Inl e
      | Inr cats' \<Rightarrow> Inr (cat' # cats')))))"

text \<open>The loop over whatever value the file held: a list iterates its items; a dict or a
  string iterates string keys or characters, whose subscript raises; anything else is not
  iterable.\<close>

definition update_data :: "counts \<Rightarrow> pyval \<Rightarrow> error + pyval" where
  "update_data t data =
     (case data of
        PList xs \<Rightarrow> (case update_counts t xs of Inl e \<Rightarrow> Inl e | Inr xs' \<Rightarrow> Inr (PList xs'))
      | PDict d \<Rightarrow> (if d = [] then Inr data else Inl TypeError)
      | PStr s \<Rightarrow> (if s = [] then Inr data else Inl TypeError)
      | _ \<Rightarrow> Inl TypeError)"

text \<open>Operations 0 to 5 read the two files, 6 to 8 rewrite \<^verbatim>\<open>categories.json\<close>, 9 to 11
  rewrite \<^verbatim>\<open>vendors.json\<close>.\<close>

definition update_base_data_counts ::
  "io \<Rightarrow> tally option list \<Rightarrow> fs \<Rightarrow> error + fs \<times> log_event list" where
  "update_base_data_counts cio results files =
     (case aggregate results of (total_vendor_counts, total_category_counts) \<Rightarrow>
     (case read_json cio 0 (categories_file files) of
        Inl e \<Rightarrow> Inl e
      | Inr categories_data \<Rightarrow>
     (case read_json cio 3 (vendors_file files) of
        Inl e \<Rightarrow> Inl e
      | Inr vendors_data \<Rightarrow>
     (case update_data total_category_counts categories_data of
        Inl e \<Rightarrow> Inl e
      | Inr cd \<Rightarrow>
     (case update_data total_vendor_counts vendors_data of
        Inl e \<Rightarrow> Inl e
      | Inr vd \<Rightarrow>
     (case write_json cio 6 cd of
        Inl e \<Rightarrow> Inl e
      | Inr cf \<Rightarrow>
     (case write_json cio 9 vd of
        Inl e \<Rightarrow> Inl e
      | Inr vf \<Rightarrow>
          Inr (\<lparr>categories_file = cf, vendors_file = vf\<rparr>, [BaseDataCountsUpdated]))))))))"

section \<open>The main block\<close>

record main_out =
  m_files :: fs
  m_run :: run_out
  m_log :: "log_event list"

text \<open>The file operations of the main process, in order: operation 0 is
  \<^verbatim>\<open>os.makedirs\<close>, 1 to 6 are those of the Initializer, 7 to 18 those of the Reconciler.
  None of them is inside a \<^verbatim>\<open>try\<close>: an error ends the run.\<close>

definition script_main :: "rng \<Rightarrow> io \<Rightarrow> env \<Rightarrow> nat list \<Rightarrow> error + main_out" where
  "script_main g cio ev order =
     (if cio 0 then Inl OSError
      else
        (case generate_base_data (\<lambda>k. cio (k + 1)) [] [] g of
           Inl e \<Rightarrow> Inl e
         | Inr (categories_data, vendors_data, files, g') \<Rightarrow>
             (let all_counts = run_interleaved_generation ev order
              in (case update_base_data_counts (\<lambda>k. cio (k + 7)) (r_results all_counts) files of
                    Inl e \<Rightarrow> Inl e
                  | Inr (files', lg) \<Rightarrow>
                      Inr \<lparr>m_files = files',
                           m_run = all_counts,
                           m_log = [GeneratingStructureFiles] @ r_log all_counts @ lg
                                   @ [GenerationComplete] @ map FileSavedTo [1..<SPLIT_PARTS + 1]
                                   @ [TotalExecutionTime]\<rparr>))))"

section \<open>The test runner: \<^verbatim>\<open>count_shards_from_explain\<close>\<close>

text \<open>\<^verbatim>\<open>x.get(k, default)\<close>: only a dict has the method.\<close>

definition py_get :: "pyval \<Rightarrow> string \<Rightarrow> pyval \<Rightarrow> error + pyval" where
  "py_get x k dflt =
     (case x of
        PDict d \<Rightarrow> Inr (case dict_get d k of None \<Rightarrow> dflt | Some v \<Rightarrow> v)
      | _ \<Rightarrow> Inl AttributeError)"

fun is_substring :: "string \<Rightarrow> string \<Rightarrow> bool" where
  "is_substring k [] = (k = [])"
| "is_substring k (c # s) = (take (length k) (c # s) = k \<or> is_substring k s)"

text \<open>\<^verbatim>\<open>k in x\<close> for a string \<open>k\<close>: a key of a dict, an item of a list, a substring of a
  string; the other values are not containers.\<close>

definition py_contains :: "string \<Rightarrow> pyval \<Rightarrow> error + bool" where
  "py_contains k x =
     (case x of
        PDict d \<Rightarrow> Inr (k \<in> set (map fst d))
      | PList xs \<Rightarrow> Inr (PStr k \<in> set xs)
      | PStr s \<Rightarrow> Inr (is_substring k s)
      | _ \<Rightarrow> Inl TypeError)"

definition py_len :: "pyval \<Rightarrow> error + nat" where
  "py_len x =
     (case x of
        PDict d \<Rightarrow> Inr (length d)
      | PList xs \<Rightarrow> Inr (length xs)
      | PStr s \<Rightarrow> Inr (length s)
      | _ \<Rightarrow> Inl TypeError)"

text \<open>The body of the \<^verbatim>\<open>try\<close> block: \<open>Inl\<close> is the exception it raises.\<close>

definition count_shards_body :: "pyval \<Rightarrow> error + nat" where
  "count_shards_body explain_json =
     (case py_get explain_json ''executionStats'' (PDict []) of
        Inl e \<Rightarrow> Inl e
      | Inr execution_stats \<Rightarrow>
     (case py_get execution_stats ''executionStages'' (PDict []) of
        Inl e \<Rightarrow> Inl e
      | Inr stages \<Rightarrow>
     (case py_contains ''shards'' stages of
        Inl e \<Rightarrow> Inl e
      | Inr in_stages \<Rightarrow>
          if in_stages then
            (case py_getitem stages ''shards'' of Inl e \<Rightarrow> Inl e | Inr v \<Rightarrow> py_len v)
          else
            (case py_contains ''shards'' explain_json of
               Inl e \<Rightarrow> Inl e
             | Inr in_top \<Rightarrow>
                 if in_top then
                   (case py_getitem explain_json ''shards'' of Inl e \<Rightarrow> Inl e | Inr v \<Rightarrow> py_len v)
                 else Inr 1))))"

definition count_shards_from_explain :: "pyval \<Rightarrow> nat" where
  "count_shards_from_explain explain_json =
     (case count_shards_body explain_json of Inl e \<Rightarrow> 0 | Inr n \<Rightarrow> n)"

section \<open>The records of a partition\<close>

text \<open>
  The loop of the Partition Writer keeps no list of its records. For stating what it wrote,
  \<open>gen_seq\<close> is the sequence of results of its calls of \<^verbatim>\<open>generate_product_json\<close>:
  the same ids in the same order, the random source threaded in the same way.
\<close>

fun gen_seq :: "int \<Rightarrow> nat list \<Rightarrow> rng \<Rightarrow> (pyval \<times> nat \<times> nat) list" where
  "gen_seq start_product_id [] g = []"
| "gen_seq start_product_id (i # is) g =
     (case generate_product_json (start_product_id + int i) g of
        (r, g') \<Rightarrow> r # gen_seq start_product_id is g')"

definition partition_products :: "int \<Rightarrow> rng \<Rightarrow> pyval list" where
  "partition_products start_product_id g = map fst (gen_seq start_product_id [0..<PRODUCTS_PER_FILE] g)"

text \<open>The text the writer's three kinds of write add up to.\<close>

definition array_text :: "string list \<Rightarrow> string" where
  "array_text items = [CHR ''['', CHR 0x0A] @ join [CHR '','', CHR 0x0A] items @ [CHR 0x0A, CHR '']'']"

text \<open>\<^verbatim>\<open>p["product_id"]\<close> of a record, when it is an integer.\<close>

definition product_id_of :: "pyval \<Rightarrow> int option" where
  "product_id_of p = (case py_getitem p ''product_id'' of Inr (PInt i) \<Rightarrow> Some i | _ \<Rightarrow> None)"

section \<open>Reading JSON text\<close>

text \<open>
  A reader for the part of JSON the generator writes: arrays, objects with distinct keys,
  strings of printable ASCII without escapes, numbers without exponent, and the three
  literals. It is the reader of \<^verbatim>\<open>json.loads\<close> restricted to such texts: a number with a
  fraction is read as the nearest double, one without as an integer. Any other text is
  rejected (\<open>None\<close>). The recursion is bounded by fuel; \<open>parse_json\<close> supplies the
  length of the text.
\<close>

definition is_ws :: "char \<Rightarrow> bool" where
  "is_ws c \<longleftrightarrow> c = CHR '' '' \<or> c = CHR 0x0A \<or> c = CHR 0x0D \<or> c = CHR 0x09"

definition skip_ws :: "string \<Rightarrow> string" where
  "skip_ws s = dropWhile is_ws s"

definition is_digit :: "char \<Rightarrow> bool" where
  "is_digit c \<longleftrightarrow> 48 \<le> (of_char c :: nat) \<and> (of_char c :: nat) \<le> 57"

definition digits_val :: "string \<Rightarrow> nat" where
  "digits_val ds = foldl (\<lambda>a c. 10 * a + ((of_char c :: nat) - 48)) 0 ds"

definition is_plain_char :: "char \<Rightarrow> bool" where
  "is_plain_char c \<longleftrightarrow>
     32 \<le> (of_char c :: nat) \<and> (of_char c :: nat) \<le> 126 \<and> c \<noteq> CHR 0x22 \<and> c \<noteq> CHR 0x5C"

text \<open>The text after an opening quote, up to the closing one.\<close>

definition parse_string_body :: "string \<Rightarrow> (string \<times> string) option" where
  "parse_string_body s =
     (case dropWhile is_plain_char s of
        [] \<Rightarrow> None
      | c # r \<Rightarrow> if c = CHR 0x22 then Some (takeWhile is_plain_char s, r) else None)"

definition starts_exponent :: "string \<Rightarrow> bool" where
  "starts_exponent s = (case s of [] \<Rightarrow> False | c # r \<Rightarrow> c = CHR ''e'' \<or> c = CHR ''E'')"

text \<open>An unsigned number: integer digits without a leading zero, then an optional
  fraction. A fraction makes it a float. Texts with an exponent, and floats too large for a
  finite double, are left to the full reader.\<close>

definition parse_unsigned :: "string \<Rightarrow> ((bool \<times> rat) \<times> string) option" where
  "parse_unsigned s =
     (let ip = takeWhile is_digit s; s2 = dropWhile is_digit s
      in if ip = [] \<or> (1 < length ip \<and> hd ip = CHR ''0'') then None
         else (case s2 of
                 [] \<Rightarrow> Some ((False, of_nat (digits_val ip)), s2)
               | c # r \<Rightarrow>
                   if c = CHR ''.'' then
                     (let fp = takeWhile is_digit r; s3 = dropWhile is_digit r;
                          x = fl (of_nat (digits_val (ip @ fp)) / 10 ^ length fp)
                      in if fp = [] \<or> starts_exponent s3 \<or> 2 ^ 1024 \<le> x then None
                         else Some ((True, x), s3))
                   else if starts_exponent s2 then None
                   else Some ((False, of_nat (digits_val ip)), s2)))"

definition parse_number :: "string \<Rightarrow> (pyval \<times> string) option" where
  "parse_number s =
     (case s of
        [] \<Rightarrow> None
      | c # r \<Rightarrow>
          if c = CHR ''-'' then
            (case parse_unsigned r of
               None \<Rightarrow> None
             | Some ((is_float, x), t) \<Rightarrow>
                 if is_float then (if x = 0 then None else Some (PFloat (- x), t))
                 else Some (PInt (- \<lfloor>x\<rfloor>), t))
          else
            (case parse_unsigned s of
               None \<Rightarrow> None
             | Some ((is_float, x), t) \<Rightarrow>
                 if is_float then Some (PFloat x, t) else Some (PInt \<lfloor>x\<rfloor>, t)))"

definition parse_literal :: "string \<Rightarrow> (pyval \<times> string) option" where
  "parse_literal s =
     (if take 4 s = ''null'' then Some (PNone, drop 4 s)
      else if take 4 s = ''true'' then Some (PBool True, drop 4 s)
      else if take 5 s = ''false'' then Some (PBool False, drop 5 s)
      else None)"

fun parse_value :: "nat \<Rightarrow> string \<Rightarrow> (pyval \<times> string) option"
  and parse_elems :: "nat \<Rightarrow> string \<Rightarrow> (pyval list \<times> string) option"
  and parse_members :: "nat \<Rightarrow> string \<Rightarrow> ((string \<times> pyval) list \<times> string) option"
where
  "parse_value 0 s = None"
| "parse_value (Suc n) s =
     (case skip_ws s of
        [] \<Rightarrow> None
      | c # r \<Rightarrow>
          if c = CHR ''['' then
            (case skip_ws r of
               [] \<Rightarrow> None
             | c' # r' \<Rightarrow>
                 if c' = CHR '']'' then Some (PList [], r')
                 else (case parse_elems n r of
                         None \<Rightarrow> None
                       | Some (vs, t) \<Rightarrow> Some (PList vs, t)))
          else if c = CHR ''{'' then
            (case skip_ws r of
               [] \<Rightarrow> None
             | c' # r' \<Rightarrow>
                 if c' = CHR ''}'' then Some (PDict [], r')
                 else (case parse_members n r of
                         None \<Rightarrow> None
                       | Some (kvs, t) \<Rightarrow>
                           if distinct (map fst kvs) then Some (PDict kvs, t) else None))
          else if c = CHR 0x22 then
            (case parse_string_body r of
               None \<Rightarrow> None
             | Some (str, t) \<Rightarrow> Some (PStr str, t))
          else if c = CHR ''-'' \<or> is_digit c then parse_number (c # r)
          else parse_literal (c # r))"
| "parse_elems 0 s = None"
| "parse_elems (Suc n) s =
     (case parse_value n s of
        None \<Rightarrow> None
      | Some (v, r) \<Rightarrow>
          (case skip_ws r of
             [] \<Rightarrow> None
           | c # r' \<Rightarrow>
               if c = CHR '','' then
                 (case parse_elems n r' of
                    None \<Rightarrow> None
                  | Some (vs, t) \<Rightarrow> Some (v # vs, t))
               else if c = CHR '']'' then Some ([v], r')
               else None))"
| "parse_members 0 s = None"
| "parse_members (Suc n) s =
     (case skip_ws s of
        [] \<Rightarrow> None
      | c # r \<Rightarrow>
          if c \<noteq> CHR 0x22 then None
          else
            (case parse_string_body r of
               None \<Rightarrow> None
             | Some (k, r1) \<Rightarrow>
                 (case skip_ws r1 of
                    [] \<Rightarrow> None
                  | c1 # r2 \<Rightarrow>
                      if c1 \<noteq> CHR '':'' then None
                      else
                        (case parse_value n r2 of
                           None \<Rightarrow> None
                         | Some (v, r3) \<Rightarrow>
                             (case skip_ws r3 of
                                [] \<Rightarrow> None
                              | c3 # r4 \<Rightarrow>
                                  if c3 = CHR '','' then
                                    (case parse_members n r4 of
                                       None \<Rightarrow> None
                                     | Some (kvs, t) \<Rightarrow> Some ((k, v) # kvs, t))
                                  else if c3 = CHR ''}'' then Some ([(k, v)], r4)
                                  else None)))))"

definition parse_json :: "string \<Rightarrow> pyval option" where
  "parse_json s =
     (case parse_value (length s) s of
        None \<Rightarrow> None
      | Some (v, r) \<Rightarrow> if skip_ws r = [] then Some v else None)"

section \<open>Notions for stating the catalog's contents\<close>

text \<open>The entries the Initializer appends, with the field \<^verbatim>\<open>products_count\<close> at a given value.\<close>

definition category_entry :: "nat \<Rightarrow> string \<Rightarrow> int \<Rightarrow> pyval" where
  "category_entry i w c =
     PDict [(''_id'', PInt (int i)),
            (''label'', PStr (''Category Label '' @ str_nat i @ '' - '' @ w)),
            (''products_count'', PInt c)]"

definition vendor_entry :: "nat \<Rightarrow> int \<Rightarrow> pyval" where
  "vendor_entry i c =
     PDict [(''_id'', PInt (int i)),
            (''full_name'', PStr (''Vendor Company '' @ str_nat i)),
            (''products_count'', PInt c)]"

text \<open>The words \<^verbatim>\<open>get_random_word\<close> returns to the Initializer, one per category.\<close>

fun category_words :: "nat list \<Rightarrow> rng \<Rightarrow> string list" where
  "category_words [] g = []"
| "category_words (i # is) g = (case get_random_word g of (w, g') \<Rightarrow> w # category_words is g')"

text \<open>The count a list of \<^verbatim>\<open>(id, count)\<close> items holds for an id, and the count a partition's
  returned value contributes (\<^verbatim>\<open>None\<close> contributes nothing).\<close>

definition key_sum :: "counts \<Rightarrow> int \<Rightarrow> int" where
  "key_sum items k = (\<Sum>kc\<leftarrow>items. if fst kc = k then snd kc else 0)"

definition result_category_count :: "tally option \<Rightarrow> int \<Rightarrow> int" where
  "result_category_count result k = (case result of None \<Rightarrow> 0 | Some r \<Rightarrow> key_sum (category_counts r) k)"

definition result_vendor_count :: "tally option \<Rightarrow> int \<Rightarrow> int" where
  "result_vendor_count result k = (case result of None \<Rightarrow> 0 | Some r \<Rightarrow> key_sum (vendor_counts r) k)"

text \<open>One run of the Initializer (on fresh lists, as the main block calls it) followed by
  the Count Reconciler on given tallies; the file operations are numbered as in the main
  block, without its \<^verbatim>\<open>os.makedirs\<close>.\<close>

definition initialize_and_reconcile :: "rng \<Rightarrow> io \<Rightarrow> tally option list \<Rightarrow> error + fs \<times> log_event list" where
  "initialize_and_reconcile g cio results =
     (case generate_base_data cio [] [] g of
        Inl e \<Rightarrow> Inl e
      | Inr (categories_data, vendors_data, files, g') \<Rightarrow>
          update_base_data_counts (\<lambda>k. cio (k + 6)) results files)"

text \<open>\<^verbatim>\<open>c["products_count"]\<close> of a catalog entry, and the sum of it over a catalog file.\<close>

definition products_count_of :: "pyval \<Rightarrow> int" where
  "products_count_of c = (case py_getitem c ''products_count'' of Inr (PInt n) \<Rightarrow> n | _ \<Rightarrow> 0)"

definition catalog_total :: "pyval option \<Rightarrow> int" where
  "catalog_total file = (case file of Some (PList cs) \<Rightarrow> (\<Sum>c\<leftarrow>cs. products_count_of c) | _ \<Rightarrow> 0)"


section \<open>The values the Partition Writer serialises\<close>

text \<open>
  Where a number ends in a text: at the end of the text, or before a character that is
  neither a digit, nor a decimal point, nor the start of an exponent.
\<close>

definition number_end :: "string \<Rightarrow> bool" where
  "number_end rest \<longleftrightarrow>
     (case rest of [] \<Rightarrow> True
      | c # r \<Rightarrow> \<not> is_digit c \<and> c \<noteq> CHR ''.'' \<and> c \<noteq> CHR ''e'' \<and> c \<noteq> CHR ''E'')"

text \<open>
  The values of the kind the generator builds: integers from 0, floats between 1 and 5000
  that are doubles with a decimal text of at most 17 significant digits, strings of
  printable ASCII without quote and backslash, and lists and dicts (with distinct keys)
  of such values.
\<close>

fun plain_value :: "pyval \<Rightarrow> bool" where
  "plain_value PNone = True"
| "plain_value (PBool b) = True"
| "plain_value (PInt i) = (0 \<le> i)"
| "plain_value (PFloat x) = (1 \<le> x \<and> x \<le> 5000 \<and> list_ex (\<lambda>n. fl (round_sig x n) = x) [1..<18])"
| "plain_value (PStr s) = list_all is_plain_char s"
| "plain_value (PList vs) = (\<forall>v\<in>set vs. plain_value v)"
| "plain_value (PDict d) =
     (distinct (map fst d) \<and> (\<forall>kv\<in>set d. list_all is_plain_char (fst kv) \<and> plain_value (snd kv)))"

section \<open>Dictionaries\<close>

lemma dict_get_None_iff: "dict_get d k = None \<longleftrightarrow> k \<notin> set (map fst d)"
  by (induction d) force+

section \<open>The shard counter of the test runner\<close>

lemma count_shards_no_shards:
  assumes top: "dict_get d ''shards'' = None"
      and st: "dict_get d ''executionStats'' = None \<or>
               (\<exists>es. dict_get d ''executionStats'' = Some (PDict es) \<and>
                  (dict_get es ''executionStages'' = None \<or>
                   (\<exists>sg. dict_get es ''executionStages'' = Some (PDict sg) \<and> dict_get sg ''shards'' = None)))"
  shows "count_shards_body (PDict d) = Inr 1"
proof -
  have top': "''shards'' \<notin> set (map fst d)"
    using top by (simp add: dict_get_None_iff)
  have sg: "''shards'' \<notin> set (map fst sg)" if "dict_get sg ''shards'' = None" for sg
    using that by (simp add: dict_get_None_iff)
  show ?thesis
    using st top' sg
    by (auto simp: count_shards_body_def py_get_def py_contains_def)
qed

lemma count_shards_non_dict: "(\<forall>d. x \<noteq> PDict d) \<Longrightarrow> count_shards_body x = Inl AttributeError"
  by (cases x) (simp_all add: count_shards_body_def py_get_def)

text \<open>
  Claim C10, as amended. \<^verbatim>\<open>count_shards_from_explain\<close> returns a natural number on every
  input (the bare \<^verbatim>\<open>except\<close> turns every exception of the body into 0). It returns 0
  exactly when the body raises or the \<^verbatim>\<open>shards\<close> value it measures is empty; it returns 0 on
  every input that is not a dict; and it returns 1 on every dict without a top-level
  \<^verbatim>\<open>shards\<close> key whose \<^verbatim>\<open>executionStats\<close> is absent or a dict whose \<^verbatim>\<open>executionStages\<close> is
  absent or a dict without a \<^verbatim>\<open>shards\<close> key.
\<close>

theorem count_shards_from_explain_cases:
  "(count_shards_from_explain x = 0 \<longleftrightarrow> (\<exists>e. count_shards_body x = Inl e) \<or> count_shards_body x = Inr 0)
   \<and> ((\<forall>d. x \<noteq> PDict d) \<longrightarrow> count_shards_from_explain x = 0)
   \<and> (\<forall>d. x = PDict d \<and> dict_get d ''shards'' = None \<and>
          (dict_get d ''executionStats'' = None \<or>
           (\<exists>es. dict_get d ''executionStats'' = Some (PDict es) \<and>
              (dict_get es ''executionStages'' = None \<or>
               (\<exists>sg. dict_get es ''executionStages'' = Some (PDict sg) \<and> dict_get sg ''shards'' = None))))
        \<longrightarrow> count_shards_body x = Inr 1 \<and> count_shards_from_explain x = 1)"
proof (intro conjI allI impI)
  show "count_shards_from_explain x = 0 \<longleftrightarrow> (\<exists>e. count_shards_body x = Inl e) \<or> count_shards_body x = Inr 0"
    by (cases "count_shards_body x") (simp_all add: count_shards_from_explain_def)
next
  assume "\<forall>d. x \<noteq> PDict d"
  then show "count_shards_from_explain x = 0"
    by (simp add: count_shards_from_explain_def count_shards_non_dict)
next
  fix d
  assume h: "x = PDict d \<and> dict_get d ''shards'' = None \<and>
          (dict_get d ''executionStats'' = None \<or>
           (\<exists>es. dict_get d ''executionStats'' = Some (PDict es) \<and>
              (dict_get es ''executionStages'' = None \<or>
               (\<exists>sg. dict_get es ''executionStages'' = Some (PDict sg) \<and> dict_get sg ''shards'' = None))))"
  then have b: "count_shards_body x = Inr 1"
    using count_shards_no_shards [of d] by blast
  show "count_shards_body x = Inr 1" by (rule b)
  show "count_shards_from_explain x = 1" by (simp add: count_shards_from_explain_def b)
qed

text \<open>Witness for C10: an integer input gives 0; an explain dict whose execution stages
  list no shards gives 1.\<close>

theorem count_shards_from_explain_cases_witness:
  "count_shards_from_explain (PInt 3) = 0
   \<and> count_shards_from_explain
        (PDict [(''executionStats'', PDict [(''executionStages'', PDict [(''stage'', PStr ''IXSCAN'')])])]) = 1"
  using count_shards_from_explain_cases [of "PInt 3"]
    count_shards_from_explain_cases
      [of "PDict [(''executionStats'', PDict [(''executionStages'', PDict [(''stage'', PStr ''IXSCAN'')])])]"]
  by simp

text \<open>
  Counterexample to C10 as stated. The dict \<^verbatim>\<open>{"executionStats": 5}\<close> has no \<^verbatim>\<open>shards\<close> key
  anywhere, yet the result is 0, not 1 (\<^verbatim>\<open>(5).get\<close> raises). And on \<^verbatim>\<open>{"shards": []}\<close>
  the result is 0 although nothing raises: the body returns \<^verbatim>\<open>len([])\<close>.
\<close>

theorem count_shards_from_explain_counterexample:
  "dict_get [(''executionStats'', PInt 5)] ''shards'' = None
   \<and> count_shards_from_explain (PDict [(''executionStats'', PInt 5)]) = 0
   \<and> count_shards_body (PDict [(''shards'', PList [])]) = Inr 0
   \<and> count_shards_from_explain (PDict [(''shards'', PList [])]) = 0"
  by (simp add: count_shards_from_explain_def count_shards_body_def py_get_def py_contains_def
      py_getitem_def py_len_def)

section \<open>The fields of a product record\<close>

text \<open>
  Claim C4 (the code departs from it). Every record \<^verbatim>\<open>generate_product_json\<close> builds is a
  dict with exactly the keys \<^verbatim>\<open>name, price, rating, attributs, category_id, vendor_id,
  product_id\<close>, in this order: the attribute list is stored under \<^verbatim>\<open>attributs\<close>, and the
  record has no key \<^verbatim>\<open>attributes\<close>.
\<close>

theorem product_field_names:
  "\<exists>d. fst (fst (generate_product_json global_product_id g)) = PDict d
       \<and> dict_keys d = [''name'', ''price'', ''rating'', ''attributs'', ''category_id'', ''vendor_id'', ''product_id'']
       \<and> dict_get d ''attributes'' = None"
  by (simp add: generate_product_json_def dict_keys_def split: prod.split)

section \<open>What the Count Reconciler reports\<close>

lemma update_base_data_counts_log:
  "update_base_data_counts cio results files = Inr (files', lg) \<Longrightarrow> lg = [BaseDataCountsUpdated]"
  by (auto simp: update_base_data_counts_def split: prod.splits sum.splits)

lemma failed_partition_log:
  "p_result (generate_interleaved_products_for_file io g idx start) = None \<Longrightarrow>
   \<exists>e. p_log (generate_interleaved_products_for_file io g idx start)
        = [GeneratingProducts PRODUCTS_PER_FILE idx, ErrorWritingFile idx e]"
  by (auto simp: generate_interleaved_products_for_file_def split: sum.splits)

text \<open>
  Claim C9, as amended. Whatever tallies it is given, a Count Reconciler that returns has
  logged exactly one line, the fixed success message, which names no partition. A failed
  partition is named only by the Partition Writer's own error line, logged when that
  partition fails.
\<close>

theorem reconciler_log_is_fixed:
  "(\<forall>files' lg. update_base_data_counts cio results files = Inr (files', lg) \<longrightarrow> lg = [BaseDataCountsUpdated])
   \<and> (p_result (generate_interleaved_products_for_file io g idx start) = None \<longrightarrow>
        (\<exists>e. p_log (generate_interleaved_products_for_file io g idx start)
              = [GeneratingProducts PRODUCTS_PER_FILE idx, ErrorWritingFile idx e]))"
  using update_base_data_counts_log failed_partition_log by blast

text \<open>Witness for C9: the reconciler on an empty catalog, and partition 2 failing at the
  opening of its file.\<close>

theorem reconciler_log_is_fixed_witness:
  "update_base_data_counts (\<lambda>k. False) [] \<lparr>categories_file = Some (PList []), vendors_file = Some (PList [])\<rparr>
     = Inr (\<lparr>categories_file = Some (PList []), vendors_file = Some (PList [])\<rparr>, [BaseDataCountsUpdated])
   \<and> p_result (generate_interleaved_products_for_file (\<lambda>k. True) (\<lambda>i. 0) 2 2500000) = None
   \<and> p_log (generate_interleaved_products_for_file (\<lambda>k. True) (\<lambda>i. 0) 2 2500000)
       = [GeneratingProducts PRODUCTS_PER_FILE 2, ErrorWritingFile 2 OSError]"
  using reconciler_log_is_fixed
    [of "\<lambda>k. False" "[]" "\<lparr>categories_file = Some (PList []), vendors_file = Some (PList [])\<rparr>"
      "\<lambda>k. True" "\<lambda>i. 0" 2 2500000]
  by (simp add: update_base_data_counts_def aggregate_def update_data_def read_json_def write_json_def
      generate_interleaved_products_for_file_def write_file_def f_open_def)

text \<open>
  Counterexample to C9 as stated. With the tallies of partitions 1 and 3 (partition 2
  failed) and with those of partitions 1 and 2 (partition 3 failed), and no failing
  operation on the catalog files, the reconciler leaves the same files and the same log:
  its output does not tell which partitions contributed.
\<close>

theorem reconciler_report_counterexample:
  "update_base_data_counts (\<lambda>k. False)
     [Some \<lparr>file_index = 1, category_counts = [(0, 1)], vendor_counts = [(0, 1)]\<rparr>,
      Some \<lparr>file_index = 3, category_counts = [(0, 1)], vendor_counts = [(0, 1)]\<rparr>]
     \<lparr>categories_file = Some (PList [PDict [(''_id'', PInt 0), (''products_count'', PInt 0)]]),
      vendors_file = Some (PList [PDict [(''_id'', PInt 0), (''products_count'', PInt 0)]])\<rparr>
   = Inr (\<lparr>categories_file = Some (PList [PDict [(''_id'', PInt 0), (''products_count'', PInt 2)]]),
           vendors_file = Some (PList [PDict [(''_id'', PInt 0), (''products_count'', PInt 2)]])\<rparr>,
          [BaseDataCountsUpdated])
   \<and> update_base_data_counts (\<lambda>k. False)
     [Some \<lparr>file_index = 1, category_counts = [(0, 1)], vendor_counts = [(0, 1)]\<rparr>,
      Some \<lparr>file_index = 2, category_counts = [(0, 1)], vendor_counts = [(0, 1)]\<rparr>]
     \<lparr>categories_file = Some (PList [PDict [(''_id'', PInt 0), (''products_count'', PInt 0)]]),
      vendors_file = Some (PList [PDict [(''_id'', PInt 0), (''products_count'', PInt 0)]])\<rparr>
   = Inr (\<lparr>categories_file = Some (PList [PDict [(''_id'', PInt 0), (''products_count'', PInt 2)]]),
           vendors_file = Some (PList [PDict [(''_id'', PInt 0), (''products_count'', PInt 2)]])\<rparr>,
          [BaseDataCountsUpdated])"
  by (simp add: update_base_data_counts_def aggregate_def aggregate_result_def update_data_def
      read_json_def write_json_def py_getitem_def py_setitem_def dd_getitem_def)

section \<open>The Partition Writer's loop\<close>

lemma randrange_less: "randrange n g = (x, g') \<Longrightarrow> 0 < n \<Longrightarrow> x < n"
  by (auto simp: randrange_def rng_next_def)

lemma gpj_product_id: "product_id_of (fst (fst (generate_product_json gid g))) = Some gid"
  by (simp add: generate_product_json_def product_id_of_def py_getitem_def split: prod.split)

lemma gpj_vendor_less: "fst (snd (fst (generate_product_json gid g))) < VENDOR_COUNT"
  by (auto simp: generate_product_json_def VENDOR_COUNT_def split: prod.split dest!: randrange_less)

lemma gpj_category_less: "snd (snd (fst (generate_product_json gid g))) < NUM_CATEGORIES"
  by (auto simp: generate_product_json_def NUM_CATEGORIES_def split: prod.split dest!: randrange_less)

lemma length_gen_seq: "length (gen_seq st js g) = length js"
  by (induction js arbitrary: g) (auto split: prod.split)

lemma gen_seq_product_ids:
  "map (product_id_of \<circ> fst) (gen_seq st js g) = map (\<lambda>i. Some (st + int i)) js"
proof (induction js arbitrary: g)
  case Nil
  then show ?case by simp
next
  case (Cons i js)
  obtain r g' where r: "generate_product_json (st + int i) g = (r, g')"
    by (cases "generate_product_json (st + int i) g")
  have "product_id_of (fst r) = Some (st + int i)"
    using gpj_product_id [of "st + int i" g] r by simp
  then show ?case using Cons.IH [of g'] r by simp
qed

lemma gen_seq_in_range:
  "list_all (\<lambda>r. fst (snd r) < VENDOR_COUNT \<and> snd (snd r) < NUM_CATEGORIES) (gen_seq st js g)"
proof (induction js arbitrary: g)
  case Nil
  then show ?case by simp
next
  case (Cons i js)
  obtain r g' where r: "generate_product_json (st + int i) g = (r, g')"
    by (cases "generate_product_json (st + int i) g")
  have "fst (snd r) < VENDOR_COUNT" "snd (snd r) < NUM_CATEGORIES"
    using gpj_vendor_less [of "st + int i" g] gpj_category_less [of "st + int i" g] r by simp_all
  then show ?case using Cons.IH [of g'] r by simp
qed

lemma write_product_Inr:
  assumes "write_product io st i s = Inr s'"
  shows "\<exists>r g'. generate_product_json (st + int i) (w_rng s) = (r, g') \<and> w_rng s' = g'
      \<and> w_vendor_counts s' = dd_add (w_vendor_counts s) (int (fst (snd r))) 1
      \<and> w_category_counts s' = dd_add (w_category_counts s) (int (snd (snd r))) 1
      \<and> content (w_file s') = content (w_file s) @ (if 0 < i then [CHR '','', CHR 0x0A] else []) @ dumps (fst r)"
  using assms
  by (auto simp: write_product_def f_write_def split: prod.splits sum.splits if_splits)

lemma write_products_Inr:
  assumes "write_products io st js s = Inr s'"
  shows "w_vendor_counts s' = fold (\<lambda>r d. dd_add d (int (fst (snd r))) 1) (gen_seq st js (w_rng s)) (w_vendor_counts s)
      \<and> w_category_counts s' = fold (\<lambda>r d. dd_add d (int (snd (snd r))) 1) (gen_seq st js (w_rng s)) (w_category_counts s)
      \<and> content (w_file s') = content (w_file s)
           @ concat (map2 (\<lambda>i r. (if 0 < i then [CHR '','', CHR 0x0A] else []) @ dumps (fst r)) js (gen_seq st js (w_rng s)))"
  using assms
proof (induction js arbitrary: s)
  case Nil
  then show ?case by simp
next
  case (Cons i js)
  from Cons.prems obtain s1 where s1: "write_product io st i s = Inr s1"
    and rest: "write_products io st js s1 = Inr s'"
    by (auto split: sum.splits)
  from write_product_Inr [OF s1] obtain r g' where
    r: "generate_product_json (st + int i) (w_rng s) = (r, g')" "w_rng s1 = g'"
      "w_vendor_counts s1 = dd_add (w_vendor_counts s) (int (fst (snd r))) 1"
      "w_category_counts s1 = dd_add (w_category_counts s) (int (snd (snd r))) 1"
      "content (w_file s1) = content (w_file s) @ (if 0 < i then [CHR '','', CHR 0x0A] else []) @ dumps (fst r)"
    by blast
  show ?case
    using Cons.IH [OF rest] r by simp
qed

lemma join_Cons: "join sp (x # xs) = x @ concat (map (\<lambda>y. sp @ y) xs)"
  by (induction xs arbitrary: x) simp_all

lemma concat_map2_positive:
  "length rs = length js \<Longrightarrow> list_all (\<lambda>j. 0 < j) js \<Longrightarrow>
   concat (map2 (\<lambda>i r. (if 0 < i then sp else []) @ f r) js rs) = concat (map (\<lambda>r. sp @ f r) rs)"
  by (induction js rs rule: list_induct2') simp_all

lemma concat_map2_upt:
  assumes "length rs = n"
  shows "concat (map2 (\<lambda>i r. (if 0 < i then sp else []) @ f r) [0..<n] rs) = join sp (map f rs)"
proof (cases n)
  case 0
  then show ?thesis using assms by simp
next
  case (Suc m)
  then obtain r rs' where rs: "rs = r # rs'" "length rs' = m"
    using assms by (cases rs) auto
  have upt: "[0..<n] = 0 # [1..<Suc m]"
    using Suc by (simp add: upt_conv_Cons)
  have pos: "list_all (\<lambda>j. 0 < j) [1..<Suc m]"
    by (auto simp: list_all_iff)
  have "concat (map2 (\<lambda>i r. (if 0 < i then sp else []) @ f r) [1..<Suc m] rs') = concat (map (\<lambda>r. sp @ f r) rs')"
    by (rule concat_map2_positive) (use rs pos in simp_all)
  then show ?thesis
    by (simp add: upt rs join_Cons comp_def)
qed


lemma write_file_Inr:
  assumes "write_file io g st = Inr s"
  shows "w_vendor_counts s = fold (\<lambda>r d. dd_add d (int (fst (snd r))) 1) (gen_seq st [0..<PRODUCTS_PER_FILE] g) []
      \<and> w_category_counts s = fold (\<lambda>r d. dd_add d (int (snd (snd r))) 1) (gen_seq st [0..<PRODUCTS_PER_FILE] g) []
      \<and> content (w_file s) = array_text (map dumps (partition_products st g))"
proof -
  from assms obtain f0 f1 s1 f2 f3 where
    f0: "f_open io = Inr f0" and f1: "f_write io f0 [CHR ''['', CHR 0x0A] = Inr f1"
    and s1: "write_products io st [0..<PRODUCTS_PER_FILE]
               \<lparr>w_rng = g, w_vendor_counts = [], w_category_counts = [], w_file = f1\<rparr> = Inr s1"
    and f2: "f_write io (w_file s1) [CHR 0x0A, CHR '']''] = Inr f2"
    and f3: "f_close io f2 = Inr f3" and s: "s = s1\<lparr>w_file := f3\<rparr>"
    by (auto simp: write_file_def split: sum.splits)
  have c1: "content f1 = [CHR ''['', CHR 0x0A]"
    using f0 f1 by (auto simp: f_open_def f_write_def split: if_splits)
  have c3: "content f3 = content (w_file s1) @ [CHR 0x0A, CHR '']'']"
    using f2 f3 by (auto simp: f_close_def f_write_def split: if_splits)
  note w = write_products_Inr [OF s1]
  have len: "length (gen_seq st [0..<PRODUCTS_PER_FILE] g) = PRODUCTS_PER_FILE"
    by (simp add: length_gen_seq)
  have "content (w_file s1) = [CHR ''['', CHR 0x0A]
          @ join [CHR '','', CHR 0x0A] (map (\<lambda>r. dumps (fst r)) (gen_seq st [0..<PRODUCTS_PER_FILE] g))"
    using w c1 concat_map2_upt [OF len, of "[CHR '','', CHR 0x0A]" "\<lambda>r. dumps (fst r)"] by simp
  then have "content (w_file s) = array_text (map dumps (partition_products st g))"
    using s c3 by (simp add: array_text_def partition_products_def comp_def)
  then show ?thesis using w s by simp
qed

lemma write_products_no_failure:
  "(\<forall>k. \<not> io k) \<Longrightarrow> \<exists>s'. write_products io st js s = Inr s'"
  by (induction js arbitrary: s)
    (auto simp: write_product_def f_write_def split: prod.splits sum.splits)

lemma write_file_no_failure:
  assumes io: "\<forall>k. \<not> io k"
  shows "\<exists>s. write_file io g st = Inr s"
proof -
  have "write_products io st [0..<PRODUCTS_PER_FILE] s0 \<noteq> Inl e" for s0 e
    using write_products_no_failure [OF io, of st "[0..<PRODUCTS_PER_FILE]" s0] by auto
  then show ?thesis
    using io by (auto simp: write_file_def f_open_def f_write_def f_close_def split: sum.splits)
qed

lemma tasks_eq: "tasks = [(1, 0), (2, int PRODUCTS_PER_FILE), (3, int (2 * PRODUCTS_PER_FILE)), (4, int (3 * PRODUCTS_PER_FILE))]"
proof -
  have "[1..<SPLIT_PARTS + 1] = [1, 2, 3, 4]"
    by (simp add: SPLIT_PARTS_def upt_rec)
  then show ?thesis
    by (simp add: tasks_def)
qed

lemma partition_product_ids:
  "map product_id_of (partition_products st g) = map (\<lambda>k. Some (st + int k)) [0..<PRODUCTS_PER_FILE]"
  using gen_seq_product_ids [of st "[0..<PRODUCTS_PER_FILE]" g]
  by (simp add: partition_products_def)

lemma map_upt_shift: "map (\<lambda>k. f (m + k)) [0..<n] = map f [m..<m + n]"
  by (induction n) simp_all

lemma four_blocks:
  "map f [0..<n] @ map (\<lambda>k. f (n + k)) [0..<n] @ map (\<lambda>k. f (2 * n + k)) [0..<n] @ map (\<lambda>k. f (3 * n + k)) [0..<n]
   = map f [0..<n * 4]"
proof -
  have a: "[0..<n + n] = [0..<n] @ [n..<n + n]"
    by (rule upt_add_eq_append) simp
  have b: "[0..<2 * n + n] = [0..<2 * n] @ [2 * n..<2 * n + n]"
    by (rule upt_add_eq_append) simp
  have c: "[0..<3 * n + n] = [0..<3 * n] @ [3 * n..<3 * n + n]"
    by (rule upt_add_eq_append) simp
  have e2: "2 * n = n + n" and e3: "3 * n = 2 * n + n" and e4: "n * 4 = 3 * n + n"
    by simp_all
  have "[0..<n * 4] = [0..<n] @ [n..<n + n] @ [2 * n..<2 * n + n] @ [3 * n..<3 * n + n]"
    unfolding e4 c unfolding e3 b unfolding e2 a by simp
  then show ?thesis
    by (simp only: map_upt_shift map_append)
qed

section \<open>Product ids across partitions\<close>

lemma worker_cases:
  "(\<exists>e. write_file (fst (ev (fst t))) (snd (ev (fst t))) (snd t) = Inl e
        \<and> worker ev t = \<lparr>p_log = [GeneratingProducts PRODUCTS_PER_FILE (fst t), ErrorWritingFile (fst t) e],
                          p_artifact = None, p_result = None\<rparr>)
   \<or> (\<exists>s. write_file (fst (ev (fst t))) (snd (ev (fst t))) (snd t) = Inr s
        \<and> worker ev t = \<lparr>p_log = [GeneratingProducts PRODUCTS_PER_FILE (fst t), FinishedFile (fst t) PRODUCTS_PER_FILE],
                          p_artifact = Some (content (w_file s)),
                          p_result = Some \<lparr>file_index = fst t, category_counts = w_category_counts s,
                                            vendor_counts = w_vendor_counts s\<rparr>\<rparr>)"
  by (cases "write_file (fst (ev (fst t))) (snd (ev (fst t))) (snd t)")
    (simp_all add: worker_def generate_interleaved_products_for_file_def)

lemma worker_artifact:
  assumes "p_result (worker ev t) \<noteq> None"
  shows "p_artifact (worker ev t) = Some (array_text (map dumps (partition_products (snd t) (snd (ev (fst t))))))"
  using worker_cases [of ev t] assms write_file_Inr [of "fst (ev (fst t))" "snd (ev (fst t))" "snd t"]
  by auto

lemma worker_no_failure:
  assumes "\<forall>k. \<not> fst (ev (fst t)) k"
  shows "p_result (worker ev t) \<noteq> None"
  using worker_cases [of ev t] write_file_no_failure [OF assms, of "snd (ev (fst t))" "snd t"]
  by auto

lemma tasks_as_map: "tasks = map (\<lambda>i. (i, int ((i - 1) * PRODUCTS_PER_FILE))) [1..<SPLIT_PARTS + 1]"
proof -
  have "[1..<SPLIT_PARTS + 1] = [1, 2, 3, 4]"
    by (simp add: SPLIT_PARTS_def upt_rec)
  then show ?thesis
    by (simp add: tasks_eq)
qed

lemma all_product_ids:
  "concat (map (\<lambda>t. map product_id_of (partition_products (snd t) (G t))) tasks)
   = map (\<lambda>k. Some (int k)) [0..<TOTAL_PRODUCTS]"
proof -
  have "concat (map (\<lambda>t. map product_id_of (partition_products (snd t) (G t))) tasks)
      = map (\<lambda>k. Some (int k)) [0..<PRODUCTS_PER_FILE]
        @ map (\<lambda>k. Some (int (PRODUCTS_PER_FILE + k))) [0..<PRODUCTS_PER_FILE]
        @ map (\<lambda>k. Some (int (2 * PRODUCTS_PER_FILE + k))) [0..<PRODUCTS_PER_FILE]
        @ map (\<lambda>k. Some (int (3 * PRODUCTS_PER_FILE + k))) [0..<PRODUCTS_PER_FILE]"
    by (simp add: tasks_eq partition_product_ids)
  also have "\<dots> = map (\<lambda>k. Some (int k)) [0..<PRODUCTS_PER_FILE * 4]"
    by (rule four_blocks)
  finally show ?thesis
    by (simp add: TOTAL_PRODUCTS_def SPLIT_PARTS_def)
qed

text \<open>
  Claim C1. The task list gives partition \<open>i\<close> (from 1) the start id
  \<open>(i - 1) * PRODUCTS_PER_FILE\<close>. In a run in which every partition succeeds, the artifact
  of each partition is the array of its records, whose ids are \<open>start, start + 1, ...,
  start + PRODUCTS_PER_FILE - 1\<close> in this order; the ids of all partitions together are
  exactly \<open>0, 1, ..., TOTAL_PRODUCTS - 1\<close>, each once.
\<close>

theorem product_ids_cover_range:
  assumes "list_all (\<lambda>t. p_result (worker ev t) \<noteq> None) tasks"
  shows "tasks = map (\<lambda>i. (i, int ((i - 1) * PRODUCTS_PER_FILE))) [1..<SPLIT_PARTS + 1]
     \<and> list_all (\<lambda>t. p_artifact (worker ev t)
                        = Some (array_text (map dumps (partition_products (snd t) (snd (ev (fst t))))))
                    \<and> map product_id_of (partition_products (snd t) (snd (ev (fst t))))
                        = map (\<lambda>k. Some (snd t + int k)) [0..<PRODUCTS_PER_FILE]) tasks
     \<and> concat (map (\<lambda>t. map product_id_of (partition_products (snd t) (snd (ev (fst t))))) tasks)
         = map (\<lambda>k. Some (int k)) [0..<TOTAL_PRODUCTS]
     \<and> distinct (concat (map (\<lambda>t. map product_id_of (partition_products (snd t) (snd (ev (fst t))))) tasks))"
proof (intro conjI)
  show "tasks = map (\<lambda>i. (i, int ((i - 1) * PRODUCTS_PER_FILE))) [1..<SPLIT_PARTS + 1]"
    by (rule tasks_as_map)
  show "list_all (\<lambda>t. p_artifact (worker ev t)
                        = Some (array_text (map dumps (partition_products (snd t) (snd (ev (fst t))))))
                    \<and> map product_id_of (partition_products (snd t) (snd (ev (fst t))))
                        = map (\<lambda>k. Some (snd t + int k)) [0..<PRODUCTS_PER_FILE]) tasks"
    using assms by (auto simp: list_all_iff worker_artifact partition_product_ids)
  show all: "concat (map (\<lambda>t. map product_id_of (partition_products (snd t) (snd (ev (fst t))))) tasks)
         = map (\<lambda>k. Some (int k)) [0..<TOTAL_PRODUCTS]"
    by (rule all_product_ids)
  show "distinct (concat (map (\<lambda>t. map product_id_of (partition_products (snd t) (snd (ev (fst t))))) tasks))"
    unfolding all by (simp add: distinct_map inj_on_def)
qed

text \<open>Witness for C1: no file operation fails, every process draws zeros.\<close>

theorem product_ids_cover_range_witness:
  "list_all (\<lambda>t. p_result (worker (\<lambda>i. (\<lambda>k. False, \<lambda>j. 0)) t) \<noteq> None) tasks
   \<and> concat (map (\<lambda>t. map product_id_of (partition_products (snd t) (snd ((\<lambda>i. (\<lambda>k. False, \<lambda>j. 0 :: nat)) (fst t))))) tasks)
         = map (\<lambda>k. Some (int k)) [0..<TOTAL_PRODUCTS]"
proof -
  have h: "list_all (\<lambda>t. p_result (worker (\<lambda>i. (\<lambda>k. False, \<lambda>j. 0)) t) \<noteq> None) tasks"
    by (simp add: list_all_iff worker_no_failure)
  from product_ids_cover_range [OF h] h show ?thesis by simp
qed

section \<open>Count dictionaries and aggregation\<close>

lemma dd_lookup_dd_add: "dd_lookup (dd_add d k c) k' = dd_lookup d k' + (if k = k' then c else 0)"
  by (induction d) auto

lemma keys_dd_add: "set (map fst (dd_add d k c)) = insert k (set (map fst d))"
proof (induction d)
  case Nil
  then show ?case by simp
next
  case (Cons a d)
  obtain k' v where a: "a = (k', v)" by (cases a)
  show ?case
  proof (cases "k' = k")
    case True
    then show ?thesis using a by simp
  next
    case False
    then show ?thesis using a Cons by (simp add: insert_commute)
  qed
qed

lemma distinct_dd_add: "distinct (map fst d) \<Longrightarrow> distinct (map fst (dd_add d k c))"
  by (induction d) (auto simp: keys_dd_add simp del: set_map)

lemma key_sum_Nil: "key_sum [] k = 0"
  by (simp add: key_sum_def)

lemma key_sum_absent: "k \<notin> set (map fst d) \<Longrightarrow> key_sum d k = 0"
  by (induction d) (auto simp: key_sum_def)

lemma key_sum_distinct: "distinct (map fst d) \<Longrightarrow> key_sum d k = dd_lookup d k"
proof (induction d)
  case Nil
  then show ?case by (simp add: key_sum_def)
next
  case (Cons a d)
  obtain k' v where a: "a = (k', v)" by (cases a)
  show ?case
  proof (cases "k' = k")
    case True
    then have "k \<notin> set (map fst d)" using Cons.prems a by auto
    then have "key_sum d k = 0" by (rule key_sum_absent)
    then show ?thesis using True a by (simp add: key_sum_def)
  next
    case False
    then show ?thesis using Cons a by (simp add: key_sum_def)
  qed
qed

lemma key_sum_dd_add: "key_sum (dd_add d k c) k' = key_sum d k' + (if k = k' then c else 0)"
  by (induction d) (auto simp: key_sum_def)

lemma fold_items_lookup:
  "dd_lookup (fold (\<lambda>(k, c) t. dd_add t k c) items t) k' = dd_lookup t k' + key_sum items k'"
  by (induction items arbitrary: t) (auto simp: key_sum_def dd_lookup_dd_add)

lemma aggregate_result_lookup:
  "dd_lookup (snd (aggregate_result (tv, tc) r)) k = dd_lookup tc k + result_category_count r k
   \<and> dd_lookup (fst (aggregate_result (tv, tc) r)) k = dd_lookup tv k + result_vendor_count r k"
  by (cases r)
    (simp_all add: aggregate_result_def result_category_count_def result_vendor_count_def
      fold_items_lookup Let_def)

lemma fold_aggregate_lookup:
  "dd_lookup (snd (fold (\<lambda>r a. aggregate_result a r) rs a)) k
     = dd_lookup (snd a) k + (\<Sum>r\<leftarrow>rs. result_category_count r k)
   \<and> dd_lookup (fst (fold (\<lambda>r a. aggregate_result a r) rs a)) k
     = dd_lookup (fst a) k + (\<Sum>r\<leftarrow>rs. result_vendor_count r k)"
proof (induction rs arbitrary: a)
  case Nil
  then show ?case by simp
next
  case (Cons r rs)
  obtain tv tc where a: "a = (tv, tc)" by (cases a)
  show ?case
    using Cons.IH [of "aggregate_result a r"] aggregate_result_lookup [of tv tc r k] a
    by simp
qed

lemma aggregate_lookup:
  "dd_lookup (snd (aggregate rs)) k = (\<Sum>r\<leftarrow>rs. result_category_count r k)"
  "dd_lookup (fst (aggregate rs)) k = (\<Sum>r\<leftarrow>rs. result_vendor_count r k)"
  using fold_aggregate_lookup [of rs "([], [])" k] by (simp_all add: aggregate_def)

lemma dd_getitem_cong: "(\<And>k. dd_lookup t k = dd_lookup t' k) \<Longrightarrow> dd_getitem t x = dd_getitem t' x"
  by (cases x) (simp_all add: dd_getitem_def)

lemma update_counts_cong:
  assumes "\<And>k. dd_lookup t k = dd_lookup t' k"
  shows "update_counts t xs = update_counts t' xs"
proof (induction xs)
  case Nil
  then show ?case by simp
next
  case (Cons x xs)
  have "dd_getitem t = dd_getitem t'"
    by (rule ext, rule dd_getitem_cong) (rule assms)
  then show ?case using Cons by (simp split: sum.split)
qed

lemma update_data_cong:
  assumes "\<And>k. dd_lookup t k = dd_lookup t' k"
  shows "update_data t x = update_data t' x"
proof -
  have "update_counts t = update_counts t'"
    by (rule ext, rule update_counts_cong) (rule assms)
  then show ?thesis by (simp add: update_data_def split: pyval.split sum.split)
qed

lemma sum_list_mset_cong: "mset xs = mset ys \<Longrightarrow> (\<Sum>x\<leftarrow>xs. (f x :: int)) = (\<Sum>x\<leftarrow>ys. f x)"
proof -
  assume "mset xs = mset ys"
  then have "mset (map f xs) = mset (map f ys)" by (metis mset_map)
  then show ?thesis by (metis sum_mset_sum_list)
qed

lemma update_base_data_counts_mset:
  assumes "mset rs = mset rs'"
  shows "update_base_data_counts cio rs files = update_base_data_counts cio rs' files"
proof -
  have c: "dd_lookup (snd (aggregate rs)) k = dd_lookup (snd (aggregate rs')) k" for k
    by (simp add: aggregate_lookup sum_list_mset_cong [OF assms])
  have v: "dd_lookup (fst (aggregate rs)) k = dd_lookup (fst (aggregate rs')) k" for k
    by (simp add: aggregate_lookup sum_list_mset_cong [OF assms])
  obtain tv tc where a: "aggregate rs = (tv, tc)" by (cases "aggregate rs")
  obtain tv' tc' where a': "aggregate rs' = (tv', tc')" by (cases "aggregate rs'")
  have "update_data tc = update_data tc'"
    using c a a' by (intro ext update_data_cong) simp
  moreover have "update_data tv = update_data tv'"
    using v a a' by (intro ext update_data_cong) simp
  ultimately show ?thesis
    by (cases "read_json cio 0 (categories_file files)"; cases "read_json cio 3 (vendors_file files)")
      (simp_all add: update_base_data_counts_def a a' split: sum.split)
qed

section \<open>Tallies and the catalog\<close>

lemma sum_indicator_upt:
  "k < n \<Longrightarrow> (\<Sum>i\<leftarrow>[0..<n]. if k = i then (c::int) else 0) = c"
proof -
  assume k: "k < n"
  have "(\<Sum>i\<leftarrow>[0..<n]. if k = i then c else 0) = (\<Sum>i\<in>{0..<n}. if k = i then c else 0)"
    by (simp add: interv_sum_list_conv_sum_set_nat)
  also have "\<dots> = c" using k by (simp add: sum.delta')
  finally show ?thesis .
qed

lemma choice_in_set: "xs \<noteq> [] \<Longrightarrow> fst (choice xs g) \<in> set xs"
  by (simp add: choice_def randrange_def rng_next_def)

lemma range_sum_dd_add:
  "k < n \<Longrightarrow> (\<Sum>i\<leftarrow>[0..<n]. key_sum (dd_add d (int k) c) (int i)) = (\<Sum>i\<leftarrow>[0..<n]. key_sum d (int i)) + c"
  by (simp add: key_sum_dd_add sum_list_addf sum_indicator_upt)

lemma range_sum_fold:
  "list_all (\<lambda>r. h r < n) rs \<Longrightarrow>
   (\<Sum>i\<leftarrow>[0..<n]. key_sum (fold (\<lambda>r d. dd_add d (int (h r)) 1) rs d) (int i))
     = (\<Sum>i\<leftarrow>[0..<n]. key_sum d (int i)) + int (length rs)"
  by (induction rs arbitrary: d) (simp_all add: range_sum_dd_add)

lemma distinct_fold_dd_add:
  "distinct (map fst d) \<Longrightarrow> distinct (map fst (fold (\<lambda>r d. dd_add d (h r) c) rs d))"
  by (induction rs arbitrary: d) (simp_all add: distinct_dd_add)

lemma keys_fold_dd_add:
  "set (map fst (fold (\<lambda>r d. dd_add d (h r) c) rs d)) = set (map fst d) \<union> h ` set rs"
  by (induction rs arbitrary: d) (auto simp: keys_dd_add simp del: set_map)

lemma worker_tally:
  assumes "p_result (worker ev t) = Some r"
  shows "file_index r = fst t
     \<and> distinct (map fst (category_counts r)) \<and> distinct (map fst (vendor_counts r))
     \<and> (\<Sum>i\<leftarrow>[0..<NUM_CATEGORIES]. key_sum (category_counts r) (int i)) = int PRODUCTS_PER_FILE
     \<and> (\<Sum>i\<leftarrow>[0..<VENDOR_COUNT]. key_sum (vendor_counts r) (int i)) = int PRODUCTS_PER_FILE"
proof -
  let ?io = "fst (ev (fst t))" and ?g = "snd (ev (fst t))"
  let ?rs = "gen_seq (snd t) [0..<PRODUCTS_PER_FILE] ?g"
  from assms worker_cases [of ev t] obtain s where
    s: "write_file ?io ?g (snd t) = Inr s"
    and r: "r = \<lparr>file_index = fst t, category_counts = w_category_counts s, vendor_counts = w_vendor_counts s\<rparr>"
    by auto
  note w = write_file_Inr [OF s]
  have len: "length ?rs = PRODUCTS_PER_FILE" by (simp add: length_gen_seq)
  have rng: "list_all (\<lambda>r. fst (snd r) < VENDOR_COUNT \<and> snd (snd r) < NUM_CATEGORIES) ?rs"
    by (rule gen_seq_in_range)
  have c: "list_all (\<lambda>r. snd (snd r) < NUM_CATEGORIES) ?rs"
    and v: "list_all (\<lambda>r. fst (snd r) < VENDOR_COUNT) ?rs"
    using rng by (simp_all add: list_all_iff)
  have "(\<Sum>i\<leftarrow>[0..<NUM_CATEGORIES]. key_sum (category_counts r) (int i)) = int PRODUCTS_PER_FILE"
    using range_sum_fold [OF c, of "[]"] w r len by (simp add: key_sum_Nil)
  moreover have "(\<Sum>i\<leftarrow>[0..<VENDOR_COUNT]. key_sum (vendor_counts r) (int i)) = int PRODUCTS_PER_FILE"
    using range_sum_fold [OF v, of "[]"] w r len by (simp add: key_sum_Nil)
  moreover have "distinct (map fst (category_counts r))" "distinct (map fst (vendor_counts r))"
    using w r distinct_fold_dd_add [of "[]" "\<lambda>r. int (snd (snd r))" 1 ?rs]
      distinct_fold_dd_add [of "[]" "\<lambda>r. int (fst (snd r))" 1 ?rs] by simp_all
  ultimately show ?thesis using r by simp
qed

lemma append_categories_eq:
  "fst (append_categories js cd g) = cd @ map2 (\<lambda>i w. category_entry i w 0) js (category_words js g)"
  by (induction js arbitrary: cd g) (simp_all add: category_entry_def split: prod.split)

lemma append_vendors_eq:
  "append_vendors js vd = vd @ map (\<lambda>i. vendor_entry i 0) js"
  by (induction js arbitrary: vd) (simp_all add: vendor_entry_def)

lemma length_category_words: "length (category_words js g) = length js"
  by (induction js arbitrary: g) (simp_all split: prod.split)

lemma category_words_in_WORDS: "set (category_words js g) \<subseteq> set WORDS"
proof (induction js arbitrary: g)
  case Nil
  then show ?case by simp
next
  case (Cons i js)
  have "fst (get_random_word g) \<in> set WORDS"
    unfolding get_random_word_def by (rule choice_in_set) (simp add: WORDS_def)
  then show ?case using Cons by (cases "get_random_word g") auto
qed

lemma generate_base_data_files:
  assumes "\<forall>k. \<not> cio k"
  shows "\<exists>cd vd g'. generate_base_data cio [] [] g = Inr (cd, vd,
     \<lparr>categories_file = Some (PList (map2 (\<lambda>i w. category_entry i w 0) [0..<NUM_CATEGORIES]
                                        (category_words [0..<NUM_CATEGORIES] g))),
      vendors_file = Some (PList (map (\<lambda>i. vendor_entry i 0) [0..<VENDOR_COUNT]))\<rparr>, g')"
  using append_categories_eq [of "[0..<NUM_CATEGORIES]" "[]" g] assms
  by (auto simp: generate_base_data_def write_json_def append_vendors_eq Let_def split: prod.split)

lemma update_counts_categories:
  "length ws = length js \<Longrightarrow>
   update_counts t (map2 (\<lambda>i w. category_entry i w c0) js ws)
   = Inr (map2 (\<lambda>i w. category_entry i w (dd_lookup t (int i))) js ws)"
  by (induction js ws rule: list_induct2')
    (simp_all add: category_entry_def py_getitem_def py_setitem_def dd_getitem_def)

lemma update_counts_vendors:
  "update_counts t (map (\<lambda>i. vendor_entry i c0) js)
   = Inr (map (\<lambda>i. vendor_entry i (dd_lookup t (int i))) js)"
  by (induction js)
    (simp_all add: vendor_entry_def py_getitem_def py_setitem_def dd_getitem_def)

section \<open>The whole run\<close>

lemma update_base_data_counts_initial:
  assumes "\<forall>k. \<not> cio k"
  shows "update_base_data_counts cio rs
     \<lparr>categories_file = Some (PList (map2 (\<lambda>i w. category_entry i w 0) [0..<NUM_CATEGORIES]
                                        (category_words [0..<NUM_CATEGORIES] g))),
      vendors_file = Some (PList (map (\<lambda>i. vendor_entry i 0) [0..<VENDOR_COUNT]))\<rparr>
   = Inr (\<lparr>categories_file = Some (PList (map2 (\<lambda>i w. category_entry i w (\<Sum>r\<leftarrow>rs. result_category_count r (int i)))
                                              [0..<NUM_CATEGORIES] (category_words [0..<NUM_CATEGORIES] g))),
            vendors_file = Some (PList (map (\<lambda>i. vendor_entry i (\<Sum>r\<leftarrow>rs. result_vendor_count r (int i)))
                                           [0..<VENDOR_COUNT]))\<rparr>,
          [BaseDataCountsUpdated])"
proof -
  obtain tv tc where a: "aggregate rs = (tv, tc)" by (cases "aggregate rs")
  have tc: "dd_lookup tc k = (\<Sum>r\<leftarrow>rs. result_category_count r k)" for k
    using aggregate_lookup(1) [of rs k] a by simp
  have tv: "dd_lookup tv k = (\<Sum>r\<leftarrow>rs. result_vendor_count r k)" for k
    using aggregate_lookup(2) [of rs k] a by simp
  have len: "length (category_words [0..<NUM_CATEGORIES] g) = length [0..<NUM_CATEGORIES]"
    by (simp add: length_category_words)
  show ?thesis
    using assms
    by (simp add: update_base_data_counts_def a read_json_def write_json_def update_data_def
        update_counts_categories [OF len] update_counts_vendors tc tv)
qed

lemma products_count_of_entries [simp]:
  "products_count_of (category_entry i w c) = c" "products_count_of (vendor_entry i c) = c"
  by (simp_all add: products_count_of_def category_entry_def vendor_entry_def py_getitem_def)

lemma sum_map2_entries:
  "length ws = length js \<Longrightarrow>
   (\<Sum>c\<leftarrow>map2 (\<lambda>i w. category_entry i w (F i)) js ws. products_count_of c) = (\<Sum>i\<leftarrow>js. F i)"
  by (induction js ws rule: list_induct2') simp_all

lemma sum_list_filter_zero:
  "(\<And>x. \<not> P x \<Longrightarrow> f x = (0::int)) \<Longrightarrow> (\<Sum>x\<leftarrow>filter P xs. f x) = (\<Sum>x\<leftarrow>xs. f x)"
  by (induction xs) auto

lemma mset_map_nth:
  assumes "mset order = mset [0..<length xs]"
  shows "mset (map (\<lambda>k. f (xs ! k)) order) = mset (map f xs)"
proof -
  have "mset (map (\<lambda>k. f (xs ! k)) order) = image_mset (\<lambda>k. f (xs ! k)) (mset order)"
    by simp
  also have "\<dots> = mset (map (\<lambda>k. f (xs ! k)) [0..<length xs])"
    using assms by simp
  also have "map (\<lambda>k. f (xs ! k)) [0..<length xs] = map f xs"
    by (simp add: map_nth map_equality_iff)
  finally show ?thesis .
qed

lemma length_tasks: "length tasks = SPLIT_PARTS"
  by (simp add: tasks_eq SPLIT_PARTS_def)

lemma run_results_mset:
  assumes "mset order = mset [0..<SPLIT_PARTS]"
  shows "mset (r_results (run_interleaved_generation ev order))
       = mset (filter (\<lambda>result. result \<noteq> None) (map (\<lambda>t. p_result (worker ev t)) tasks))"
proof -
  have o: "mset order = mset [0..<length (map (worker ev) tasks)]"
    using assms by (simp add: length_tasks)
  have "mset (map (\<lambda>k. p_result (map (worker ev) tasks ! k)) order)
      = mset (map p_result (map (worker ev) tasks))"
    by (rule mset_map_nth [OF o])
  then have "mset (filter (\<lambda>result. result \<noteq> None) (map (\<lambda>k. p_result (map (worker ev) tasks ! k)) order))
      = mset (filter (\<lambda>result. result \<noteq> None) (map p_result (map (worker ev) tasks)))"
    by (simp only: mset_filter)
  then show ?thesis
    by (simp add: run_interleaved_generation_def comp_def Let_def)
qed

lemma run_results_sum:
  assumes "mset order = mset [0..<SPLIT_PARTS]" and z: "f None = (0::int)"
  shows "(\<Sum>r\<leftarrow>r_results (run_interleaved_generation ev order). f r) = (\<Sum>t\<leftarrow>tasks. f (p_result (worker ev t)))"
proof -
  have "(\<Sum>r\<leftarrow>r_results (run_interleaved_generation ev order). f r)
      = (\<Sum>r\<leftarrow>filter (\<lambda>result. result \<noteq> None) (map (\<lambda>t. p_result (worker ev t)) tasks). f r)"
    by (rule sum_list_mset_cong) (rule run_results_mset [OF assms(1)])
  also have "\<dots> = (\<Sum>r\<leftarrow>map (\<lambda>t. p_result (worker ev t)) tasks. f r)"
    by (rule sum_list_filter_zero) (simp add: z)
  finally show ?thesis by (simp add: comp_def)
qed

lemma script_main_result:
  assumes "mset order = mset [0..<SPLIT_PARTS]" and cio: "\<forall>k. \<not> cio k"
  shows "script_main g cio ev order
     = Inr \<lparr>m_files =
              \<lparr>categories_file = Some (PList (map2 (\<lambda>i w. category_entry i w
                     (\<Sum>t\<leftarrow>tasks. result_category_count (p_result (worker ev t)) (int i)))
                     [0..<NUM_CATEGORIES] (category_words [0..<NUM_CATEGORIES] g))),
               vendors_file = Some (PList (map (\<lambda>i. vendor_entry i
                     (\<Sum>t\<leftarrow>tasks. result_vendor_count (p_result (worker ev t)) (int i)))
                     [0..<VENDOR_COUNT]))\<rparr>,
            m_run = run_interleaved_generation ev order,
            m_log = [GeneratingStructureFiles] @ r_log (run_interleaved_generation ev order)
                    @ [BaseDataCountsUpdated, GenerationComplete] @ map FileSavedTo [1..<SPLIT_PARTS + 1]
                    @ [TotalExecutionTime]\<rparr>"
proof -
  obtain cd vd g' where gb: "generate_base_data (\<lambda>k. cio (k + 1)) [] [] g = Inr (cd, vd,
     \<lparr>categories_file = Some (PList (map2 (\<lambda>i w. category_entry i w 0) [0..<NUM_CATEGORIES]
                                        (category_words [0..<NUM_CATEGORIES] g))),
      vendors_file = Some (PList (map (\<lambda>i. vendor_entry i 0) [0..<VENDOR_COUNT]))\<rparr>, g')"
    using generate_base_data_files [of "\<lambda>k. cio (k + 1)" g] cio by auto
  have ub: "\<forall>k. \<not> cio (k + 7)" and c0: "\<not> cio 0" using cio by simp_all
  have c: "(\<Sum>r\<leftarrow>r_results (run_interleaved_generation ev order). result_category_count r k)
      = (\<Sum>t\<leftarrow>tasks. result_category_count (p_result (worker ev t)) k)" for k
    by (rule run_results_sum [OF assms(1)]) (simp add: result_category_count_def)
  have v: "(\<Sum>r\<leftarrow>r_results (run_interleaved_generation ev order). result_vendor_count r k)
      = (\<Sum>t\<leftarrow>tasks. result_vendor_count (p_result (worker ev t)) k)" for k
    by (rule run_results_sum [OF assms(1)]) (simp add: result_vendor_count_def)
  show ?thesis
    unfolding script_main_def gb
    by (simp add: c0 update_base_data_counts_initial [OF ub] c v Let_def)
qed

lemma upt_SPLIT_PARTS: "[0..<SPLIT_PARTS] = [0, 1, 2, 3]"
  by (simp add: SPLIT_PARTS_def upt_rec numeral_2_eq_2 numeral_3_eq_3)

lemma completion_order_example: "mset [2, 0, 3, 1] = mset [0..<SPLIT_PARTS]"
  by (simp add: upt_SPLIT_PARTS)

section \<open>Conservation of counts\<close>

lemma sum_list_swap: "(\<Sum>i\<leftarrow>js. \<Sum>t\<leftarrow>ts. (F t i :: int)) = (\<Sum>t\<leftarrow>ts. \<Sum>i\<leftarrow>js. F t i)"
  by (induction ts) (simp_all add: sum_list_addf)

lemma sum_list_if_const: "(\<Sum>t\<leftarrow>ts. if P t then (c::int) else 0) = c * int (length (filter P ts))"
  by (induction ts) (simp_all add: algebra_simps)

lemma result_range_sums:
  "(\<Sum>i\<leftarrow>[0..<NUM_CATEGORIES]. result_category_count (p_result (worker ev t)) (int i))
     = (if p_result (worker ev t) \<noteq> None then int PRODUCTS_PER_FILE else 0)"
  "(\<Sum>i\<leftarrow>[0..<VENDOR_COUNT]. result_vendor_count (p_result (worker ev t)) (int i))
     = (if p_result (worker ev t) \<noteq> None then int PRODUCTS_PER_FILE else 0)"
proof -
  show "(\<Sum>i\<leftarrow>[0..<NUM_CATEGORIES]. result_category_count (p_result (worker ev t)) (int i))
     = (if p_result (worker ev t) \<noteq> None then int PRODUCTS_PER_FILE else 0)"
  proof (cases "p_result (worker ev t)")
    case None
    then show ?thesis by (simp add: result_category_count_def)
  next
    case (Some r)
    then show ?thesis using worker_tally [OF Some] by (simp add: result_category_count_def)
  qed
  show "(\<Sum>i\<leftarrow>[0..<VENDOR_COUNT]. result_vendor_count (p_result (worker ev t)) (int i))
     = (if p_result (worker ev t) \<noteq> None then int PRODUCTS_PER_FILE else 0)"
  proof (cases "p_result (worker ev t)")
    case None
    then show ?thesis by (simp add: result_vendor_count_def)
  next
    case (Some r)
    then show ?thesis using worker_tally [OF Some] by (simp add: result_vendor_count_def)
  qed
qed

lemma total_sums:
  "(\<Sum>i\<leftarrow>[0..<NUM_CATEGORIES]. \<Sum>t\<leftarrow>tasks. result_category_count (p_result (worker ev t)) (int i))
     = int (PRODUCTS_PER_FILE * length (filter (\<lambda>t. p_result (worker ev t) \<noteq> None) tasks))"
  "(\<Sum>i\<leftarrow>[0..<VENDOR_COUNT]. \<Sum>t\<leftarrow>tasks. result_vendor_count (p_result (worker ev t)) (int i))
     = int (PRODUCTS_PER_FILE * length (filter (\<lambda>t. p_result (worker ev t) \<noteq> None) tasks))"
  by (simp_all only: sum_list_swap [of _ tasks] result_range_sums sum_list_if_const of_nat_mult)

lemma absent_id_sums:
  assumes "list_all (\<lambda>t. \<forall>r. p_result (worker ev t) = Some r \<longrightarrow> k \<notin> set (map fst (category_counts r))) ts"
  shows "(\<Sum>t\<leftarrow>ts. result_category_count (p_result (worker ev t)) k) = 0"
  using assms
proof (induction ts)
  case Nil
  then show ?case by simp
next
  case (Cons t ts)
  have "result_category_count (p_result (worker ev t)) k = 0"
    using Cons.prems by (cases "p_result (worker ev t)") (simp_all add: result_category_count_def key_sum_absent)
  then show ?case using Cons by simp
qed

lemma absent_vendor_sums:
  assumes "list_all (\<lambda>t. \<forall>r. p_result (worker ev t) = Some r \<longrightarrow> k \<notin> set (map fst (vendor_counts r))) ts"
  shows "(\<Sum>t\<leftarrow>ts. result_vendor_count (p_result (worker ev t)) k) = 0"
  using assms
proof (induction ts)
  case Nil
  then show ?case by simp
next
  case (Cons t ts)
  have "result_vendor_count (p_result (worker ev t)) k = 0"
    using Cons.prems by (cases "p_result (worker ev t)") (simp_all add: result_vendor_count_def key_sum_absent)
  then show ?case using Cons by simp
qed

text \<open>
  Claim C2. A run (with any completion order of the four partitions) in which creating the
  output directory and every operation on the two catalog files go through ends with both
  catalog files rewritten: entry \<open>i\<close> of either file carries as \<^verbatim>\<open>products_count\<close> the sum, over the
  partitions, of what each partition's returned tally holds for id \<open>i\<close> (a failed partition
  holds nothing). The sum of \<^verbatim>\<open>products_count\<close> over all categories, and over all vendors,
  is \<open>PRODUCTS_PER_FILE\<close> times the number of partitions that succeeded, the number of records
  they wrote; it is \<open>TOTAL_PRODUCTS\<close> when none fails. An id that occurs in no contributing
  tally gets the count 0.
\<close>

theorem counts_conserved:
  assumes "mset order = mset [0..<SPLIT_PARTS]" and "\<forall>k. \<not> cio k"
  shows "\<exists>out. script_main g cio ev order = Inr out
     \<and> categories_file (m_files out)
         = Some (PList (map2 (\<lambda>i w. category_entry i w
              (\<Sum>t\<leftarrow>tasks. result_category_count (p_result (worker ev t)) (int i)))
              [0..<NUM_CATEGORIES] (category_words [0..<NUM_CATEGORIES] g)))
     \<and> vendors_file (m_files out)
         = Some (PList (map (\<lambda>i. vendor_entry i
              (\<Sum>t\<leftarrow>tasks. result_vendor_count (p_result (worker ev t)) (int i)))
              [0..<VENDOR_COUNT]))
     \<and> catalog_total (categories_file (m_files out))
         = int (PRODUCTS_PER_FILE * length (filter (\<lambda>t. p_result (worker ev t) \<noteq> None) tasks))
     \<and> catalog_total (vendors_file (m_files out))
         = int (PRODUCTS_PER_FILE * length (filter (\<lambda>t. p_result (worker ev t) \<noteq> None) tasks))
     \<and> (list_all (\<lambda>t. p_result (worker ev t) \<noteq> None) tasks \<longrightarrow>
          catalog_total (categories_file (m_files out)) = int TOTAL_PRODUCTS
          \<and> catalog_total (vendors_file (m_files out)) = int TOTAL_PRODUCTS)
     \<and> (\<forall>k. list_all (\<lambda>t. \<forall>r. p_result (worker ev t) = Some r \<longrightarrow> k \<notin> set (map fst (category_counts r))) tasks
            \<longrightarrow> (\<Sum>t\<leftarrow>tasks. result_category_count (p_result (worker ev t)) k) = 0)
     \<and> (\<forall>k. list_all (\<lambda>t. \<forall>r. p_result (worker ev t) = Some r \<longrightarrow> k \<notin> set (map fst (vendor_counts r))) tasks
            \<longrightarrow> (\<Sum>t\<leftarrow>tasks. result_vendor_count (p_result (worker ev t)) k) = 0)"
proof -
  let ?n = "length (filter (\<lambda>t. p_result (worker ev t) \<noteq> None) tasks)"
  have len: "length (category_words [0..<NUM_CATEGORIES] g) = length [0..<NUM_CATEGORIES]"
    by (simp add: length_category_words)
  have c: "catalog_total (Some (PList (map2 (\<lambda>i w. category_entry i w
              (\<Sum>t\<leftarrow>tasks. result_category_count (p_result (worker ev t)) (int i)))
              [0..<NUM_CATEGORIES] (category_words [0..<NUM_CATEGORIES] g)))) = int (PRODUCTS_PER_FILE * ?n)"
    using sum_map2_entries [OF len, of "\<lambda>i. \<Sum>t\<leftarrow>tasks. result_category_count (p_result (worker ev t)) (int i)"]
    by (simp add: catalog_total_def total_sums)
  have v: "catalog_total (Some (PList (map (\<lambda>i. vendor_entry i
              (\<Sum>t\<leftarrow>tasks. result_vendor_count (p_result (worker ev t)) (int i)))
              [0..<VENDOR_COUNT]))) = int (PRODUCTS_PER_FILE * ?n)"
    using total_sums(2) [of ev] by (simp add: catalog_total_def comp_def)
  have all: "?n = SPLIT_PARTS" if "list_all (\<lambda>t. p_result (worker ev t) \<noteq> None) tasks"
    using that by (simp add: list_all_iff length_tasks)
  show ?thesis
    unfolding script_main_result [OF assms]
    using c v all absent_id_sums [of ev _ tasks] absent_vendor_sums [of ev _ tasks]
    by (simp add: TOTAL_PRODUCTS_def)
qed

text \<open>Witness for C2: completion order 3, 1, 4, 2; no operation fails.\<close>

theorem counts_conserved_witness:
  "mset [2, 0, 3, 1] = mset [0..<SPLIT_PARTS]
   \<and> (\<exists>out. script_main (\<lambda>i. 0) (\<lambda>k. False) (\<lambda>i. (\<lambda>k. False, \<lambda>j. 0)) [2, 0, 3, 1] = Inr out
        \<and> catalog_total (categories_file (m_files out)) = int TOTAL_PRODUCTS
        \<and> catalog_total (vendors_file (m_files out)) = int TOTAL_PRODUCTS)"
proof -
  have h: "mset [2, 0, 3, 1] = mset [0..<SPLIT_PARTS]"
    by (rule completion_order_example)
  have s: "list_all (\<lambda>t. p_result (worker (\<lambda>i. (\<lambda>k. False, \<lambda>j. 0)) t) \<noteq> None) tasks"
    by (simp add: list_all_iff worker_no_failure)
  from counts_conserved [OF h, of "\<lambda>k. False" "\<lambda>i. 0" "\<lambda>i. (\<lambda>k. False, \<lambda>j. 0)"] s h
  show ?thesis by blast
qed


section \<open>Failure isolation\<close>

text \<open>Which file operations a partition performs: the opening, one write for the array
  opener, one write per record and one per separator, one write for the array closer, and
  the close. The partition succeeds exactly when none of them fails.\<close>

lemma all_less_add:
  "(\<forall>k<a + b. P (n + k)) = ((\<forall>k<a. P (n + k)) \<and> (\<forall>k<b. P (n + a + k)))" for a b n :: nat
proof (intro iffI conjI allI impI)
  fix k assume h: "\<forall>k<a + b. P (n + k)" and "k < a"
  then show "P (n + k)" by simp
next
  fix k assume h: "\<forall>k<a + b. P (n + k)" and "k < b"
  then have "P (n + (a + k))" by simp
  then show "P (n + a + k)" by (simp add: add.assoc)
next
  fix k assume h: "(\<forall>k<a. P (n + k)) \<and> (\<forall>k<b. P (n + a + k))" and k: "k < a + b"
  show "P (n + k)"
  proof (cases "k < a")
    case True
    then show ?thesis using h by simp
  next
    case False
    then have "k - a < b" and e: "n + a + (k - a) = n + k" using k by simp_all
    then have "P (n + a + (k - a))" using h by blast
    then show ?thesis by (simp only: e)
  qed
qed

lemma write_product_ops:
  "write_product io st i s = Inr s' \<Longrightarrow> ops (w_file s') = ops (w_file s) + (if 0 < i then 2 else 1)"
  by (auto simp: write_product_def f_write_def split: prod.splits sum.splits if_splits)

lemma all_less_2: "(\<forall>k<2. Q (k::nat)) = (Q 0 \<and> Q 1)"
  by (auto simp: less_2_cases_iff)

lemma write_product_succeeds:
  "(\<exists>s'. write_product io st i s = Inr s') = (\<forall>k<(if 0 < i then 2 else 1). \<not> io (ops (w_file s) + k))"
proof (cases "0 < i")
  case True
  have "(\<forall>k<2. \<not> io (ops (w_file s) + k)) = (\<not> io (ops (w_file s)) \<and> \<not> io (ops (w_file s) + 1))"
    by (simp add: all_less_2)
  then show ?thesis
    using True by (auto simp: write_product_def f_write_def split: prod.splits sum.splits)
next
  case False
  then show ?thesis
    by (auto simp: write_product_def f_write_def split: prod.splits sum.splits)
qed

lemma write_product_error: "write_product io st i s = Inl e \<Longrightarrow> e = OSError"
  by (auto simp: write_product_def f_write_def split: prod.splits sum.splits if_splits)

lemma write_products_error: "write_products io st js s = Inl e \<Longrightarrow> e = OSError"
  by (induction js arbitrary: s) (auto split: sum.splits dest: write_product_error)

lemma write_products_ops:
  "write_products io st js s = Inr s' \<Longrightarrow>
   ops (w_file s') = ops (w_file s) + (length js + length (filter (\<lambda>i. 0 < i) js))"
proof (induction js arbitrary: s)
  case Nil
  then show ?case by simp
next
  case (Cons i js)
  from Cons.prems obtain s1 where s1: "write_product io st i s = Inr s1"
    and rest: "write_products io st js s1 = Inr s'"
    by (auto split: sum.splits)
  show ?case
    using Cons.IH [OF rest] write_product_ops [OF s1] by simp
qed

lemma write_products_succeeds:
  "(\<exists>s'. write_products io st js s = Inr s')
   = (\<forall>k<length js + length (filter (\<lambda>i. 0 < i) js). \<not> io (ops (w_file s) + k))"
proof (induction js arbitrary: s)
  case Nil
  then show ?case by simp
next
  case (Cons i js)
  let ?c = "if 0 < i then 2 else 1 :: nat"
  let ?m = "length js + length (filter (\<lambda>i. 0 < i) js)"
  have n: "length (i # js) + length (filter (\<lambda>i. 0 < i) (i # js)) = ?c + ?m"
    by simp
  show ?case
  proof (cases "write_product io st i s")
    case (Inl e)
    then have "\<not> (\<exists>s'. write_product io st i s = Inr s')" by simp
    with write_product_succeeds [of io st i s] have "\<not> (\<forall>k<?c. \<not> io (ops (w_file s) + k))"
      by blast
    with all_less_add [of ?c ?m "\<lambda>k. \<not> io k" "ops (w_file s)"]
    have "\<not> (\<forall>k<?c + ?m. \<not> io (ops (w_file s) + k))"
      by blast
    moreover have "\<not> (\<exists>s'. write_products io st (i # js) s = Inr s')"
      using Inl by simp
    ultimately show ?thesis
      unfolding n by blast
  next
    case (Inr s1)
    then have "\<exists>s'. write_product io st i s = Inr s'" by simp
    with write_product_succeeds [of io st i s] have a: "\<forall>k<?c. \<not> io (ops (w_file s) + k)"
      by blast
    have o: "ops (w_file s1) = ops (w_file s) + ?c"
      by (rule write_product_ops [OF Inr])
    have "(\<exists>s'. write_products io st (i # js) s = Inr s') = (\<exists>s'. write_products io st js s1 = Inr s')"
      using Inr by simp
    also have "\<dots> = (\<forall>k<?m. \<not> io (ops (w_file s1) + k))"
      by (rule Cons.IH)
    also have "\<dots> = (\<forall>k<?m. \<not> io (ops (w_file s) + ?c + k))"
      by (simp only: o)
    also have "\<dots> = (\<forall>k<?c + ?m. \<not> io (ops (w_file s) + k))"
      using a all_less_add [of ?c ?m "\<lambda>k. \<not> io k" "ops (w_file s)"] by blast
    finally show ?thesis unfolding n .
  qed
qed

lemma length_filter_pos_upt: "length (filter (\<lambda>i. 0 < i) [0..<n]) = n - 1"
  by (induction n) auto

lemma write_file_error: "write_file io g st = Inl e \<Longrightarrow> e = OSError"
  by (auto simp: write_file_def f_open_def f_write_def f_close_def
      split: sum.splits if_splits dest: write_products_error)

lemma write_file_succeeds:
  "(\<exists>s. write_file io g st = Inr s) = (\<forall>k<2 * PRODUCTS_PER_FILE + 3. \<not> io k)"
proof -
  let ?s0 = "\<lparr>w_rng = g, w_vendor_counts = [], w_category_counts = [],
              w_file = \<lparr>content = [CHR ''['', CHR 0x0A], ops = 2\<rparr>\<rparr>"
  let ?m = "2 * PRODUCTS_PER_FILE - 1"
  have m: "length [0..<PRODUCTS_PER_FILE] + length (filter (\<lambda>i. 0 < i) [0..<PRODUCTS_PER_FILE]) = ?m"
    by (simp add: length_filter_pos_upt PRODUCTS_PER_FILE_def)
  have w: "(\<exists>s'. write_products io st [0..<PRODUCTS_PER_FILE] ?s0 = Inr s') = (\<forall>k<?m. \<not> io (2 + k))"
    using write_products_succeeds [of io st "[0..<PRODUCTS_PER_FILE]" ?s0] unfolding m by simp
  have split: "(\<forall>k<2 * PRODUCTS_PER_FILE + 3. \<not> io k)
      = (\<not> io 0 \<and> \<not> io 1 \<and> (\<forall>k<?m. \<not> io (2 + k)) \<and> \<not> io (2 + ?m) \<and> \<not> io (2 + ?m + 1))"
  proof -
    have e: "2 * PRODUCTS_PER_FILE + 3 = 2 + (?m + 2)"
      by (simp add: PRODUCTS_PER_FILE_def)
    have a: "(\<forall>k<2 + (?m + 2). \<not> io (0 + k)) = ((\<forall>k<2. \<not> io (0 + k)) \<and> (\<forall>k<?m + 2. \<not> io (0 + 2 + k)))"
      by (rule all_less_add [of 2 "?m + 2" "\<lambda>k. \<not> io k" 0])
    have b: "(\<forall>k<?m + 2. \<not> io (2 + k)) = ((\<forall>k<?m. \<not> io (2 + k)) \<and> (\<forall>k<2. \<not> io (2 + ?m + k)))"
      by (rule all_less_add [of ?m 2 "\<lambda>k. \<not> io k" 2])
    have c: "(\<forall>k<2. \<not> io (0 + k)) = (\<not> io 0 \<and> \<not> io 1)"
      "(\<forall>k<2. \<not> io (2 + ?m + k)) = (\<not> io (2 + ?m) \<and> \<not> io (2 + ?m + 1))"
      by (simp_all add: all_less_2)
    have "(\<forall>k<2 + (?m + 2). \<not> io k)
        = (\<not> io 0 \<and> \<not> io 1 \<and> (\<forall>k<?m. \<not> io (2 + k)) \<and> \<not> io (2 + ?m) \<and> \<not> io (2 + ?m + 1))"
      using a b c by simp
    then show ?thesis
      by (simp only: e)
  qed
  show ?thesis
  proof (cases "io 0 \<or> io 1")
    case True
    then show ?thesis
      unfolding split by (auto simp: write_file_def f_open_def f_write_def)
  next
    case False
    then have wf: "write_file io g st =
        (case write_products io st [0..<PRODUCTS_PER_FILE] ?s0 of
           Inl e \<Rightarrow> Inl e
         | Inr s \<Rightarrow>
             (case f_write io (w_file s) [CHR 0x0A, CHR '']''] of
                Inl e \<Rightarrow> Inl e
              | Inr f2 \<Rightarrow> (case f_close io f2 of Inl e \<Rightarrow> Inl e | Inr f3 \<Rightarrow> Inr (s\<lparr>w_file := f3\<rparr>))))"
      by (simp add: write_file_def f_open_def f_write_def numeral_2_eq_2)
    show ?thesis
    proof (cases "write_products io st [0..<PRODUCTS_PER_FILE] ?s0")
      case (Inl e)
      then have "\<not> (\<exists>s'. write_products io st [0..<PRODUCTS_PER_FILE] ?s0 = Inr s')" by simp
      with w have "\<not> (\<forall>k<?m. \<not> io (2 + k))" by blast
      then show ?thesis
        unfolding split wf using Inl by simp
    next
      case (Inr s1)
      then have "\<exists>s'. write_products io st [0..<PRODUCTS_PER_FILE] ?s0 = Inr s'" by simp
      with w have a: "\<forall>k<?m. \<not> io (2 + k)" by blast
      have o: "ops (w_file s1) = 2 + ?m"
        using write_products_ops [OF Inr] by (simp only: m) simp
      show ?thesis
        unfolding split wf using Inr False a o
        by (auto simp: f_write_def f_close_def)
    qed
  qed
qed

lemma worker_fails_iff:
  "(p_result (worker ev t) = None) = (\<exists>k<2 * PRODUCTS_PER_FILE + 3. fst (ev (fst t)) k)"
proof -
  have "(p_result (worker ev t) = None)
      = (\<not> (\<exists>s. write_file (fst (ev (fst t))) (snd (ev (fst t))) (snd t) = Inr s))"
    using worker_cases [of ev t] by auto
  then show ?thesis
    by (simp only: write_file_succeeds) simp
qed

lemma worker_outcome:
  "(p_result (worker ev t) = None \<and> p_artifact (worker ev t) = None
      \<and> p_log (worker ev t) = [GeneratingProducts PRODUCTS_PER_FILE (fst t), ErrorWritingFile (fst t) OSError])
   \<or> (\<exists>r. p_result (worker ev t) = Some r \<and> file_index r = fst t
         \<and> (\<Sum>i\<leftarrow>[0..<NUM_CATEGORIES]. key_sum (category_counts r) (int i)) = int PRODUCTS_PER_FILE
         \<and> (\<Sum>i\<leftarrow>[0..<VENDOR_COUNT]. key_sum (vendor_counts r) (int i)) = int PRODUCTS_PER_FILE
         \<and> p_artifact (worker ev t)
             = Some (array_text (map dumps (partition_products (snd t) (snd (ev (fst t)))))))"
proof (cases "p_result (worker ev t)")
  case None
  then show ?thesis
    using worker_cases [of ev t] write_file_error [of "fst (ev (fst t))" "snd (ev (fst t))" "snd t"]
    by auto
next
  case (Some r)
  then have "p_result (worker ev t) \<noteq> None" by simp
  from worker_artifact [OF this] worker_tally [OF Some] Some show ?thesis by simp
qed

lemma sums_over_succeeded:
  "(\<Sum>t\<leftarrow>filter (\<lambda>t. p_result (worker ev t) \<noteq> None) ts. result_category_count (p_result (worker ev t)) k)
     = (\<Sum>t\<leftarrow>ts. result_category_count (p_result (worker ev t)) k)"
  "(\<Sum>t\<leftarrow>filter (\<lambda>t. p_result (worker ev t) \<noteq> None) ts. result_vendor_count (p_result (worker ev t)) k)
     = (\<Sum>t\<leftarrow>ts. result_vendor_count (p_result (worker ev t)) k)"
  by (rule sum_list_filter_zero, simp add: result_category_count_def result_vendor_count_def)+

lemma catalog_totals_succeeded:
  "catalog_total (Some (PList (map2 (\<lambda>i w. category_entry i w
       (\<Sum>t\<leftarrow>tasks. result_category_count (p_result (worker ev t)) (int i)))
       [0..<NUM_CATEGORIES] (category_words [0..<NUM_CATEGORIES] g))))
     = int (PRODUCTS_PER_FILE * length (filter (\<lambda>t. p_result (worker ev t) \<noteq> None) tasks))"
  "catalog_total (Some (PList (map (\<lambda>i. vendor_entry i
       (\<Sum>t\<leftarrow>tasks. result_vendor_count (p_result (worker ev t)) (int i)))
       [0..<VENDOR_COUNT])))
     = int (PRODUCTS_PER_FILE * length (filter (\<lambda>t. p_result (worker ev t) \<noteq> None) tasks))"
proof -
  have len: "length (category_words [0..<NUM_CATEGORIES] g) = length [0..<NUM_CATEGORIES]"
    by (simp add: length_category_words)
  show "catalog_total (Some (PList (map2 (\<lambda>i w. category_entry i w
       (\<Sum>t\<leftarrow>tasks. result_category_count (p_result (worker ev t)) (int i)))
       [0..<NUM_CATEGORIES] (category_words [0..<NUM_CATEGORIES] g))))
     = int (PRODUCTS_PER_FILE * length (filter (\<lambda>t. p_result (worker ev t) \<noteq> None) tasks))"
    using sum_map2_entries [OF len, of "\<lambda>i. \<Sum>t\<leftarrow>tasks. result_category_count (p_result (worker ev t)) (int i)"]
    by (simp add: catalog_total_def total_sums)
  show "catalog_total (Some (PList (map (\<lambda>i. vendor_entry i
       (\<Sum>t\<leftarrow>tasks. result_vendor_count (p_result (worker ev t)) (int i)))
       [0..<VENDOR_COUNT])))
     = int (PRODUCTS_PER_FILE * length (filter (\<lambda>t. p_result (worker ev t) \<noteq> None) tasks))"
    using total_sums(2) [of ev] by (simp add: catalog_total_def comp_def)
qed

text \<open>
  Claim C6. Building a record raises nothing, so the file operations are the only source of
  errors in a partition, which performs \<open>2 * PRODUCTS_PER_FILE + 3\<close> of them. It returns no
  tally exactly when one of them fails, whichever it is and whatever the random source
  gives; it then leaves no finished artifact and logs the error with its index. Otherwise
  it returns its complete tally, whose counts add up to \<open>PRODUCTS_PER_FILE\<close>, together with
  the complete array of its records: never a partial tally. Whether a partition succeeds
  depends on its own file operations only, and what it returns and writes on its own
  environment only, so a failure elsewhere changes neither. When creating the output
  directory and the operations on the catalog files go through, the run completes
  whatever fails in the partitions; its result list holds exactly the tallies of the
  partitions that succeeded; the \<^verbatim>\<open>products_count\<close> of every category and vendor in the
  final catalog is the sum over the succeeded partitions only, and the counts of either
  catalog add up to \<open>PRODUCTS_PER_FILE\<close> times the number of succeeded partitions.
\<close>

theorem failure_isolation:
  assumes "mset order = mset [0..<SPLIT_PARTS]"
  shows "list_all (\<lambda>t.
            (p_result (worker ev t) = None) = (\<exists>k<2 * PRODUCTS_PER_FILE + 3. fst (ev (fst t)) k)) tasks
     \<and> list_all (\<lambda>t.
            (p_result (worker ev t) = None \<and> p_artifact (worker ev t) = None
               \<and> p_log (worker ev t)
                   = [GeneratingProducts PRODUCTS_PER_FILE (fst t), ErrorWritingFile (fst t) OSError])
            \<or> (\<exists>r. p_result (worker ev t) = Some r \<and> file_index r = fst t
                  \<and> (\<Sum>i\<leftarrow>[0..<NUM_CATEGORIES]. key_sum (category_counts r) (int i)) = int PRODUCTS_PER_FILE
                  \<and> (\<Sum>i\<leftarrow>[0..<VENDOR_COUNT]. key_sum (vendor_counts r) (int i)) = int PRODUCTS_PER_FILE
                  \<and> p_artifact (worker ev t)
                      = Some (array_text (map dumps (partition_products (snd t) (snd (ev (fst t)))))))) tasks
     \<and> (\<forall>ev'. list_all (\<lambda>t.
            (fst (ev' (fst t)) = fst (ev (fst t)) \<longrightarrow>
               (p_result (worker ev' t) = None) = (p_result (worker ev t) = None))
            \<and> (ev' (fst t) = ev (fst t) \<longrightarrow> worker ev' t = worker ev t)) tasks)
     \<and> ((\<forall>k. \<not> cio k) \<longrightarrow>
        (\<exists>out. script_main g cio ev order = Inr out
           \<and> r_parts (m_run out) = map (worker ev) tasks
           \<and> mset (r_results (m_run out))
               = mset (filter (\<lambda>result. result \<noteq> None) (map (\<lambda>t. p_result (worker ev t)) tasks))
           \<and> categories_file (m_files out)
               = Some (PList (map2 (\<lambda>i w. category_entry i w
                    (\<Sum>t\<leftarrow>filter (\<lambda>t. p_result (worker ev t) \<noteq> None) tasks.
                        result_category_count (p_result (worker ev t)) (int i)))
                    [0..<NUM_CATEGORIES] (category_words [0..<NUM_CATEGORIES] g)))
           \<and> vendors_file (m_files out)
               = Some (PList (map (\<lambda>i. vendor_entry i
                    (\<Sum>t\<leftarrow>filter (\<lambda>t. p_result (worker ev t) \<noteq> None) tasks.
                        result_vendor_count (p_result (worker ev t)) (int i)))
                    [0..<VENDOR_COUNT]))
           \<and> catalog_total (categories_file (m_files out))
               = int (PRODUCTS_PER_FILE * length (filter (\<lambda>t. p_result (worker ev t) \<noteq> None) tasks))
           \<and> catalog_total (vendors_file (m_files out))
               = int (PRODUCTS_PER_FILE * length (filter (\<lambda>t. p_result (worker ev t) \<noteq> None) tasks))))"
proof (intro conjI allI impI)
  show "list_all (\<lambda>t.
            (p_result (worker ev t) = None) = (\<exists>k<2 * PRODUCTS_PER_FILE + 3. fst (ev (fst t)) k)) tasks"
    unfolding list_all_iff using worker_fails_iff [of ev] by blast
next
  show "list_all (\<lambda>t.
            (p_result (worker ev t) = None \<and> p_artifact (worker ev t) = None
               \<and> p_log (worker ev t)
                   = [GeneratingProducts PRODUCTS_PER_FILE (fst t), ErrorWritingFile (fst t) OSError])
            \<or> (\<exists>r. p_result (worker ev t) = Some r \<and> file_index r = fst t
                  \<and> (\<Sum>i\<leftarrow>[0..<NUM_CATEGORIES]. key_sum (category_counts r) (int i)) = int PRODUCTS_PER_FILE
                  \<and> (\<Sum>i\<leftarrow>[0..<VENDOR_COUNT]. key_sum (vendor_counts r) (int i)) = int PRODUCTS_PER_FILE
                  \<and> p_artifact (worker ev t)
                      = Some (array_text (map dumps (partition_products (snd t) (snd (ev (fst t)))))))) tasks"
    unfolding list_all_iff using worker_outcome [of ev] by blast
next
  fix ev'
  have "(p_result (worker ev' t) = None) = (p_result (worker ev t) = None)"
    if "fst (ev' (fst t)) = fst (ev (fst t))" for t
    by (simp only: worker_fails_iff that)
  then show "list_all (\<lambda>t.
            (fst (ev' (fst t)) = fst (ev (fst t)) \<longrightarrow>
               (p_result (worker ev' t) = None) = (p_result (worker ev t) = None))
            \<and> (ev' (fst t) = ev (fst t) \<longrightarrow> worker ev' t = worker ev t)) tasks"
    by (simp add: list_all_iff worker_def)
next
  assume c: "\<forall>k. \<not> cio k"
  show "\<exists>out. script_main g cio ev order = Inr out
           \<and> r_parts (m_run out) = map (worker ev) tasks
           \<and> mset (r_results (m_run out))
               = mset (filter (\<lambda>result. result \<noteq> None) (map (\<lambda>t. p_result (worker ev t)) tasks))
           \<and> categories_file (m_files out)
               = Some (PList (map2 (\<lambda>i w. category_entry i w
                    (\<Sum>t\<leftarrow>filter (\<lambda>t. p_result (worker ev t) \<noteq> None) tasks.
                        result_category_count (p_result (worker ev t)) (int i)))
                    [0..<NUM_CATEGORIES] (category_words [0..<NUM_CATEGORIES] g)))
           \<and> vendors_file (m_files out)
               = Some (PList (map (\<lambda>i. vendor_entry i
                    (\<Sum>t\<leftarrow>filter (\<lambda>t. p_result (worker ev t) \<noteq> None) tasks.
                        result_vendor_count (p_result (worker ev t)) (int i)))
                    [0..<VENDOR_COUNT]))
           \<and> catalog_total (categories_file (m_files out))
               = int (PRODUCTS_PER_FILE * length (filter (\<lambda>t. p_result (worker ev t) \<noteq> None) tasks))
           \<and> catalog_total (vendors_file (m_files out))
               = int (PRODUCTS_PER_FILE * length (filter (\<lambda>t. p_result (worker ev t) \<noteq> None) tasks))"
    unfolding script_main_result [OF assms c] sums_over_succeeded
    using run_results_mset [OF assms, of ev] catalog_totals_succeeded(1) [of ev g]
      catalog_totals_succeeded(2) [of ev]
    by (simp add: run_interleaved_generation_def Let_def)
qed

text \<open>Witness for C6: the write of the 500th record of partition 2 of 4 fails; every other
  file operation goes through. Partition 2 returns nothing, partitions 1, 3 and 4 return
  their tallies, the run completes, and the catalog counts add up to the records of three
  partitions.\<close>

theorem failure_isolation_witness:
  "mset [2, 0, 3, 1] = mset [0..<SPLIT_PARTS]
   \<and> p_result (worker (\<lambda>i. (\<lambda>k. i = 2 \<and> k = 1000, \<lambda>j. 0)) (2, 2500000)) = None
   \<and> p_artifact (worker (\<lambda>i. (\<lambda>k. i = 2 \<and> k = 1000, \<lambda>j. 0)) (2, 2500000)) = None
   \<and> p_result (worker (\<lambda>i. (\<lambda>k. i = 2 \<and> k = 1000, \<lambda>j. 0)) (1, 0)) \<noteq> None
   \<and> p_result (worker (\<lambda>i. (\<lambda>k. i = 2 \<and> k = 1000, \<lambda>j. 0)) (3, 5000000)) \<noteq> None
   \<and> p_result (worker (\<lambda>i. (\<lambda>k. i = 2 \<and> k = 1000, \<lambda>j. 0)) (4, 7500000)) \<noteq> None
   \<and> (\<exists>out. script_main (\<lambda>i. 0) (\<lambda>k. False) (\<lambda>i. (\<lambda>k. i = 2 \<and> k = 1000, \<lambda>j. 0)) [2, 0, 3, 1] = Inr out
        \<and> length (r_results (m_run out)) = 3
        \<and> catalog_total (categories_file (m_files out)) = int (PRODUCTS_PER_FILE * 3)
        \<and> catalog_total (vendors_file (m_files out)) = int (PRODUCTS_PER_FILE * 3))"
proof -
  let ?ev = "\<lambda>i::nat. (\<lambda>k::nat. i = 2 \<and> k = 1000, \<lambda>j::nat. 0::nat)"
  have h: "mset [2, 0, 3, 1] = mset [0..<SPLIT_PARTS]"
    by (rule completion_order_example)
  have t: "tasks = [(1, 0), (2, 2500000), (3, 5000000), (4, 7500000)]"
    by (simp add: tasks_eq PRODUCTS_PER_FILE_def)
  have b: "(1000::nat) < 2 * PRODUCTS_PER_FILE + 3"
    by (simp add: PRODUCTS_PER_FILE_def)
  note f = failure_isolation [OF h, of ?ev "\<lambda>k. False" "\<lambda>i. 0"]
  from f have iff: "list_all (\<lambda>t.
            (p_result (worker ?ev t) = None) = (\<exists>k<2 * PRODUCTS_PER_FILE + 3. fst (?ev (fst t)) k)) tasks"
    by (rule conjunct1)
  from f have out: "list_all (\<lambda>t.
            (p_result (worker ?ev t) = None \<and> p_artifact (worker ?ev t) = None
               \<and> p_log (worker ?ev t)
                   = [GeneratingProducts PRODUCTS_PER_FILE (fst t), ErrorWritingFile (fst t) OSError])
            \<or> (\<exists>r. p_result (worker ?ev t) = Some r \<and> file_index r = fst t
                  \<and> (\<Sum>i\<leftarrow>[0..<NUM_CATEGORIES]. key_sum (category_counts r) (int i)) = int PRODUCTS_PER_FILE
                  \<and> (\<Sum>i\<leftarrow>[0..<VENDOR_COUNT]. key_sum (vendor_counts r) (int i)) = int PRODUCTS_PER_FILE
                  \<and> p_artifact (worker ?ev t)
                      = Some (array_text (map dumps (partition_products (snd t) (snd (?ev (fst t)))))))) tasks"
    by (rule conjunct1 [OF conjunct2])
  have p2: "p_result (worker ?ev (2, 2500000)) = None"
    using iff b unfolding t by auto
  have a2: "p_artifact (worker ?ev (2, 2500000)) = None"
    using out p2 unfolding t by auto
  have p1: "p_result (worker ?ev (1, 0)) \<noteq> None"
    using iff unfolding t by simp
  have p3: "p_result (worker ?ev (3, 5000000)) \<noteq> None"
    using iff unfolding t by simp
  have p4: "p_result (worker ?ev (4, 7500000)) \<noteq> None"
    using iff unfolding t by simp
  have n: "length (filter (\<lambda>t. p_result (worker ?ev t) \<noteq> None) tasks) = 3"
    unfolding t using p1 p2 p3 p4 by simp
  have n': "size (mset (filter (\<lambda>result. result \<noteq> None) (map (\<lambda>t. p_result (worker ?ev t)) tasks))) = 3"
    unfolding t using p1 p2 p3 p4 by simp
  from f obtain out where o: "script_main (\<lambda>i. 0) (\<lambda>k. False) ?ev [2, 0, 3, 1] = Inr out"
    "mset (r_results (m_run out))
       = mset (filter (\<lambda>result. result \<noteq> None) (map (\<lambda>t. p_result (worker ?ev t)) tasks))"
    "catalog_total (categories_file (m_files out))
       = int (PRODUCTS_PER_FILE * length (filter (\<lambda>t. p_result (worker ?ev t) \<noteq> None) tasks))"
    "catalog_total (vendors_file (m_files out))
       = int (PRODUCTS_PER_FILE * length (filter (\<lambda>t. p_result (worker ?ev t) \<noteq> None) tasks))"
    by auto
  have "length (r_results (m_run out)) = 3"
    using arg_cong [OF o(2), of size] n' by simp
  then show ?thesis
    using h p2 a2 p1 p3 p4 o n by auto
qed
section \<open>Order independence of the aggregation\<close>

text \<open>
  Claim C7. For every list of per-partition results and every permutation of it, the
  aggregated totals hold the same count for every category id and every vendor id, and the
  Count Reconciler returns the same files, log or error, whatever its file operations do.
  Hence two runs that differ only in the order in which the partitions complete end alike:
  with the same error, or with the same catalog files; when no operation on the catalog
  files fails both complete, with the same files and log.
\<close>

theorem aggregation_order_independent:
  "(mset rs = mset rs' \<longrightarrow>
      (\<forall>k. dd_lookup (snd (aggregate rs)) k = dd_lookup (snd (aggregate rs')) k)
      \<and> (\<forall>k. dd_lookup (fst (aggregate rs)) k = dd_lookup (fst (aggregate rs')) k)
      \<and> update_base_data_counts cio rs files = update_base_data_counts cio rs' files)
   \<and> (mset order = mset [0..<SPLIT_PARTS] \<and> mset order' = mset [0..<SPLIT_PARTS] \<longrightarrow>
      map_sum id m_files (script_main g cio ev order) = map_sum id m_files (script_main g cio ev order')
      \<and> ((\<forall>k. \<not> cio k) \<longrightarrow>
        (\<exists>out out'. script_main g cio ev order = Inr out \<and> script_main g cio ev order' = Inr out'
          \<and> m_files out = m_files out' \<and> m_log out = m_log out'
          \<and> r_parts (m_run out) = r_parts (m_run out')
          \<and> mset (r_results (m_run out)) = mset (r_results (m_run out')))))"
proof (intro conjI impI allI)
  fix k
  assume m: "mset rs = mset rs'"
  show "dd_lookup (snd (aggregate rs)) k = dd_lookup (snd (aggregate rs')) k"
    by (simp add: aggregate_lookup sum_list_mset_cong [OF m])
  show "dd_lookup (fst (aggregate rs)) k = dd_lookup (fst (aggregate rs')) k"
    by (simp add: aggregate_lookup sum_list_mset_cong [OF m])
next
  assume "mset rs = mset rs'"
  then show "update_base_data_counts cio rs files = update_base_data_counts cio rs' files"
    by (rule update_base_data_counts_mset)
next
  assume o: "mset order = mset [0..<SPLIT_PARTS] \<and> mset order' = mset [0..<SPLIT_PARTS]"
  then have a: "mset order = mset [0..<SPLIT_PARTS]" and b: "mset order' = mset [0..<SPLIT_PARTS]"
    by simp_all
  have "mset (r_results (run_interleaved_generation ev order))
      = mset (r_results (run_interleaved_generation ev order'))"
    by (simp only: run_results_mset [OF a] run_results_mset [OF b])
  then have e: "update_base_data_counts c (r_results (run_interleaved_generation ev order)) fl
      = update_base_data_counts c (r_results (run_interleaved_generation ev order')) fl" for c fl
    by (rule update_base_data_counts_mset)
  show "map_sum id m_files (script_main g cio ev order) = map_sum id m_files (script_main g cio ev order')"
    by (simp add: script_main_def Let_def e split: sum.split prod.split)
next
  assume o: "mset order = mset [0..<SPLIT_PARTS] \<and> mset order' = mset [0..<SPLIT_PARTS]"
  then have a: "mset order = mset [0..<SPLIT_PARTS]" and b: "mset order' = mset [0..<SPLIT_PARTS]"
    by simp_all
  assume c: "\<forall>k. \<not> cio k"
  show "\<exists>out out'. script_main g cio ev order = Inr out \<and> script_main g cio ev order' = Inr out'
          \<and> m_files out = m_files out' \<and> m_log out = m_log out'
          \<and> r_parts (m_run out) = r_parts (m_run out')
          \<and> mset (r_results (m_run out)) = mset (r_results (m_run out'))"
    unfolding script_main_result [OF a c] script_main_result [OF b c]
    using run_results_mset [OF a, of ev] run_results_mset [OF b, of ev]
    by (simp add: run_interleaved_generation_def Let_def)
qed

text \<open>Witness for C7: three results in two orders; two completion orders of a run in which
  partition 2 fails.\<close>

theorem aggregation_order_independent_witness:
  "mset [Some \<lparr>file_index = 1, category_counts = [(5, 2), (7, 1)], vendor_counts = [(0, 3)]\<rparr>, None,
         Some \<lparr>file_index = 2, category_counts = [(7, 3)], vendor_counts = [(1, 2), (0, 1)]\<rparr>]
   = mset [Some \<lparr>file_index = 2, category_counts = [(7, 3)], vendor_counts = [(1, 2), (0, 1)]\<rparr>,
           Some \<lparr>file_index = 1, category_counts = [(5, 2), (7, 1)], vendor_counts = [(0, 3)]\<rparr>, None]
   \<and> dd_lookup (snd (aggregate
         [Some \<lparr>file_index = 1, category_counts = [(5, 2), (7, 1)], vendor_counts = [(0, 3)]\<rparr>, None,
          Some \<lparr>file_index = 2, category_counts = [(7, 3)], vendor_counts = [(1, 2), (0, 1)]\<rparr>])) 7
     = dd_lookup (snd (aggregate
         [Some \<lparr>file_index = 2, category_counts = [(7, 3)], vendor_counts = [(1, 2), (0, 1)]\<rparr>,
          Some \<lparr>file_index = 1, category_counts = [(5, 2), (7, 1)], vendor_counts = [(0, 3)]\<rparr>, None])) 7
   \<and> mset [2, 0, 3, 1] = mset [0..<SPLIT_PARTS] \<and> mset [0, 1, 2, 3] = mset [0..<SPLIT_PARTS]
   \<and> (\<exists>out out'. script_main (\<lambda>i. 0) (\<lambda>k. False) (\<lambda>i. (\<lambda>k. i = 2, \<lambda>j. 0)) [2, 0, 3, 1] = Inr out
          \<and> script_main (\<lambda>i. 0) (\<lambda>k. False) (\<lambda>i. (\<lambda>k. i = 2, \<lambda>j. 0)) [0, 1, 2, 3] = Inr out'
          \<and> m_files out = m_files out')"
proof -
  let ?rs = "[Some \<lparr>file_index = 1, category_counts = [(5, 2), (7, 1)], vendor_counts = [(0, 3)]\<rparr>, None,
         Some \<lparr>file_index = 2, category_counts = [(7, 3)], vendor_counts = [(1, 2), (0, 1)]\<rparr>]"
  let ?rs' = "[Some \<lparr>file_index = 2, category_counts = [(7, 3)], vendor_counts = [(1, 2), (0, 1)]\<rparr>,
           Some \<lparr>file_index = 1, category_counts = [(5, 2), (7, 1)], vendor_counts = [(0, 3)]\<rparr>, None]"
  have m: "mset ?rs = mset ?rs'" by simp
  have a: "mset [2, 0, 3, 1] = mset [0..<SPLIT_PARTS]" by (rule completion_order_example)
  have b: "mset [0, 1, 2, 3] = mset [0..<SPLIT_PARTS]" by (simp add: upt_SPLIT_PARTS)
  from aggregation_order_independent
    [of ?rs ?rs' "\<lambda>k. False" "\<lparr>categories_file = None, vendors_file = None\<rparr>" "[2, 0, 3, 1]" "[0, 1, 2, 3]"
      "\<lambda>i. 0" "\<lambda>i. (\<lambda>k. i = 2, \<lambda>j. 0)"] m a b
  show ?thesis by blast
qed

section \<open>Re-running the Initializer and the Reconciler\<close>

lemma dict_get_dict_set: "dict_get (dict_set d k v) k' = (if k' = k then Some v else dict_get d k')"
  by (induction d) auto

lemma dict_set_idem: "dict_set (dict_set d k v) k v = dict_set d k v"
  by (induction d) auto

lemma update_counts_idem: "update_counts t xs = Inr xs' \<Longrightarrow> update_counts t xs' = Inr xs'"
proof (induction xs arbitrary: xs')
  case Nil
  then show ?case by simp
next
  case (Cons x xs)
  from Cons.prems obtain cid c x' ys where
    g: "py_getitem x ''_id'' = Inr cid" and d: "dd_getitem t cid = Inr c"
    and s: "py_setitem x ''products_count'' (PInt c) = Inr x'"
    and r: "update_counts t xs = Inr ys" and e: "xs' = x' # ys"
    by (auto split: sum.splits)
  from s obtain dct where x: "x = PDict dct" and x': "x' = PDict (dict_set dct ''products_count'' (PInt c))"
    by (cases x) (auto simp: py_setitem_def)
  have g': "py_getitem x' ''_id'' = Inr cid"
    using g x x' by (simp add: py_getitem_def dict_get_dict_set)
  have s': "py_setitem x' ''products_count'' (PInt c) = Inr x'"
    using x' by (simp add: py_setitem_def dict_set_idem)
  show ?case
    using Cons.IH [OF r] g' d s' e by simp
qed

lemma update_data_idem: "update_data t x = Inr x' \<Longrightarrow> update_data t x' = Inr x'"
  by (cases x) (auto simp: update_data_def update_counts_idem split: sum.splits if_splits)

lemma update_base_data_counts_idem:
  assumes "update_base_data_counts cio rs files = Inr (files', lg)"
    and "\<forall>k<12. \<not> cio' k"
  shows "update_base_data_counts cio' rs files' = Inr (files', lg)"
proof -
  obtain tv tc where a: "aggregate rs = (tv, tc)" by (cases "aggregate rs")
  from assms(1) a obtain c v cd vd where
    f: "categories_file files = Some c" "vendors_file files = Some v"
    and u: "update_data tc c = Inr cd" "update_data tv v = Inr vd"
    and r: "files' = \<lparr>categories_file = Some cd, vendors_file = Some vd\<rparr>" "lg = [BaseDataCountsUpdated]"
    by (auto simp: update_base_data_counts_def read_json_def write_json_def
        split: option.splits sum.splits if_splits)
  show ?thesis
    using update_data_idem [OF u(1)] update_data_idem [OF u(2)] r a assms(2)
    by (simp add: update_base_data_counts_def read_json_def write_json_def)
qed

lemma update_base_data_counts_ops:
  assumes "update_base_data_counts cio rs files = Inr (files', lg)"
  shows "\<forall>k<12. \<not> cio k"
proof -
  have "\<not> (cio 0 \<or> cio 1 \<or> cio 2)" "\<not> (cio 3 \<or> cio 4 \<or> cio 5)"
    "\<not> (cio 6 \<or> cio 7 \<or> cio 8)" "\<not> (cio 9 \<or> cio 10 \<or> cio 11)"
    using assms
    by (auto simp: update_base_data_counts_def read_json_def write_json_def numeral_2_eq_2
        split: prod.splits option.splits sum.splits if_splits)
  moreover have "k = 0 \<or> k = 1 \<or> k = 2 \<or> k = 3 \<or> k = 4 \<or> k = 5 \<or> k = 6 \<or> k = 7 \<or> k = 8 \<or> k = 9
      \<or> k = 10 \<or> k = 11" if "k < 12" for k :: nat
    using that by arith
  ultimately show ?thesis by blast
qed

lemma generate_base_data_words:
  assumes "category_words [0..<NUM_CATEGORIES] g = category_words [0..<NUM_CATEGORIES] g'"
  shows "map_sum id (\<lambda>r. fst (snd (snd r))) (generate_base_data cio [] [] g)
       = map_sum id (\<lambda>r. fst (snd (snd r))) (generate_base_data cio [] [] g')"
  using append_categories_eq [of "[0..<NUM_CATEGORIES]" "[]" g]
    append_categories_eq [of "[0..<NUM_CATEGORIES]" "[]" g'] assms
  by (auto simp: generate_base_data_def write_json_def Let_def split: prod.split)

lemma initialize_and_reconcile_eq:
  assumes cio: "\<forall>k. \<not> cio k"
  shows "initialize_and_reconcile g cio rs
   = Inr (\<lparr>categories_file = Some (PList (map2 (\<lambda>i w. category_entry i w (\<Sum>r\<leftarrow>rs. result_category_count r (int i)))
                                              [0..<NUM_CATEGORIES] (category_words [0..<NUM_CATEGORIES] g))),
            vendors_file = Some (PList (map (\<lambda>i. vendor_entry i (\<Sum>r\<leftarrow>rs. result_vendor_count r (int i)))
                                           [0..<VENDOR_COUNT]))\<rparr>,
          [BaseDataCountsUpdated])"
proof -
  obtain cd vd g' where gb: "generate_base_data cio [] [] g = Inr (cd, vd,
     \<lparr>categories_file = Some (PList (map2 (\<lambda>i w. category_entry i w 0) [0..<NUM_CATEGORIES]
                                        (category_words [0..<NUM_CATEGORIES] g))),
      vendors_file = Some (PList (map (\<lambda>i. vendor_entry i 0) [0..<VENDOR_COUNT]))\<rparr>, g')"
    using generate_base_data_files [OF cio, of g] by auto
  have ub: "\<forall>k. \<not> cio (k + 6)" using cio by simp
  show ?thesis
    unfolding initialize_and_reconcile_def gb
    by (simp add: update_base_data_counts_initial [OF ub])
qed

lemma initialize_and_reconcile_words:
  assumes "category_words [0..<NUM_CATEGORIES] g = category_words [0..<NUM_CATEGORIES] g'"
  shows "initialize_and_reconcile g cio rs = initialize_and_reconcile g' cio rs"
proof -
  note e = generate_base_data_words [OF assms, of cio]
  show ?thesis
  proof (cases "generate_base_data cio [] [] g")
    case (Inl x)
    then show ?thesis
      using e by (cases "generate_base_data cio [] [] g'") (simp_all add: initialize_and_reconcile_def)
  next
    case (Inr r)
    then show ?thesis
      using e by (cases "generate_base_data cio [] [] g'")
        (auto simp: initialize_and_reconcile_def split: prod.splits)
  qed
qed

text \<open>
  Claim C8, as amended. The Count Reconciler assigns: applied again to the files it has just
  written, with the same tallies, it returns the same files (under the same behaviour of the
  file operations, and whenever its twelve file operations go through). A run of the
  Initializer followed by the Reconciler in which no file operation fails depends on nothing
  an earlier run left behind; its catalog has ids \<open>0, 1, ...\<close>, the vendor names, and for
  every entry the total of the given tallies as \<^verbatim>\<open>products_count\<close>, the same in every run.
  Only the category labels vary, with the random words the Initializer draws: two runs that
  draw the same words end alike, with identical files or the same error.
\<close>

theorem rerun_same_catalog:
  "(\<forall>files files' lg. update_base_data_counts cio rs files = Inr (files', lg) \<longrightarrow>
        update_base_data_counts cio rs files' = Inr (files', lg)
        \<and> (\<forall>cio'. (\<forall>k<12. \<not> cio' k) \<longrightarrow> update_base_data_counts cio' rs files' = Inr (files', lg)))
   \<and> ((\<forall>k. \<not> cio k) \<longrightarrow> initialize_and_reconcile g cio rs
       = Inr (\<lparr>categories_file = Some (PList (map2 (\<lambda>i w. category_entry i w (\<Sum>r\<leftarrow>rs. result_category_count r (int i)))
                                              [0..<NUM_CATEGORIES] (category_words [0..<NUM_CATEGORIES] g))),
                vendors_file = Some (PList (map (\<lambda>i. vendor_entry i (\<Sum>r\<leftarrow>rs. result_vendor_count r (int i)))
                                           [0..<VENDOR_COUNT]))\<rparr>,
              [BaseDataCountsUpdated]))
   \<and> (category_words [0..<NUM_CATEGORIES] g = category_words [0..<NUM_CATEGORIES] g' \<longrightarrow>
        initialize_and_reconcile g cio rs = initialize_and_reconcile g' cio rs)"
proof (intro conjI allI impI)
  fix files files' lg
  assume u: "update_base_data_counts cio rs files = Inr (files', lg)"
  show "update_base_data_counts cio rs files' = Inr (files', lg)"
    using update_base_data_counts_idem [OF u update_base_data_counts_ops [OF u]] .
next
  fix files files' lg and cio' :: io
  assume "update_base_data_counts cio rs files = Inr (files', lg)" and "\<forall>k<12. \<not> cio' k"
  then show "update_base_data_counts cio' rs files' = Inr (files', lg)"
    by (rule update_base_data_counts_idem)
next
  assume "\<forall>k. \<not> cio k"
  then show "initialize_and_reconcile g cio rs
       = Inr (\<lparr>categories_file = Some (PList (map2 (\<lambda>i w. category_entry i w (\<Sum>r\<leftarrow>rs. result_category_count r (int i)))
                                              [0..<NUM_CATEGORIES] (category_words [0..<NUM_CATEGORIES] g))),
                vendors_file = Some (PList (map (\<lambda>i. vendor_entry i (\<Sum>r\<leftarrow>rs. result_vendor_count r (int i)))
                                           [0..<VENDOR_COUNT]))\<rparr>,
              [BaseDataCountsUpdated])"
    by (rule initialize_and_reconcile_eq)
next
  assume "category_words [0..<NUM_CATEGORIES] g = category_words [0..<NUM_CATEGORIES] g'"
  then show "initialize_and_reconcile g cio rs = initialize_and_reconcile g' cio rs"
    by (rule initialize_and_reconcile_words)
qed

text \<open>Witness for C8: two random sources that draw the same words, and the Reconciler
  applied to a file that already holds the total.\<close>

theorem rerun_same_catalog_witness:
  "category_words [0..<NUM_CATEGORIES] (\<lambda>i. 0) = category_words [0..<NUM_CATEGORIES] (\<lambda>i. 7)
   \<and> initialize_and_reconcile (\<lambda>i. 0) (\<lambda>k. False) [Some \<lparr>file_index = 1, category_counts = [(5, 2)], vendor_counts = [(0, 2)]\<rparr>]
     = initialize_and_reconcile (\<lambda>i. 7) (\<lambda>k. False) [Some \<lparr>file_index = 1, category_counts = [(5, 2)], vendor_counts = [(0, 2)]\<rparr>]
   \<and> update_base_data_counts (\<lambda>k. False) [Some \<lparr>file_index = 1, category_counts = [(5, 2)], vendor_counts = [(0, 2)]\<rparr>]
        \<lparr>categories_file = Some (PList [PDict [(''_id'', PInt 5), (''products_count'', PInt 2)]]),
         vendors_file = Some (PList [])\<rparr>
     = Inr (\<lparr>categories_file = Some (PList [PDict [(''_id'', PInt 5), (''products_count'', PInt 2)]]),
             vendors_file = Some (PList [])\<rparr>, [BaseDataCountsUpdated])"
proof -
  have w: "category_words js (\<lambda>i. 0) = category_words js (\<lambda>i. 7)" for js
  proof (induction js)
    case Nil
    then show ?case by simp
  next
    case (Cons j js)
    then show ?case
      by (simp add: get_random_word_def choice_def randrange_def rng_next_def WORDS_def)
  qed
  have u: "update_base_data_counts (\<lambda>k. False) [Some \<lparr>file_index = 1, category_counts = [(5, 2)], vendor_counts = [(0, 2)]\<rparr>]
        \<lparr>categories_file = Some (PList [PDict [(''_id'', PInt 5), (''products_count'', PInt 0)]]),
         vendors_file = Some (PList [])\<rparr>
     = Inr (\<lparr>categories_file = Some (PList [PDict [(''_id'', PInt 5), (''products_count'', PInt 2)]]),
             vendors_file = Some (PList [])\<rparr>, [BaseDataCountsUpdated])"
    by (simp add: update_base_data_counts_def aggregate_def aggregate_result_def update_data_def
        read_json_def write_json_def py_getitem_def py_setitem_def dd_getitem_def)
  from rerun_same_catalog [of "\<lambda>k. False" "[Some \<lparr>file_index = 1, category_counts = [(5, 2)], vendor_counts = [(0, 2)]\<rparr>]"
      "\<lambda>i. 0" "\<lambda>i. 7"] w u
  show ?thesis by blast
qed

text \<open>
  Counterexample to C8 as stated. With no tallies at all and no failing file operation, a
  run whose random source draws
  the word \<^verbatim>\<open>Electronics\<close> first and one that draws \<^verbatim>\<open>Apparel\<close> first end with different
  catalog files: the label of category 0 differs.
\<close>

theorem rerun_labels_counterexample:
  "initialize_and_reconcile (\<lambda>i. 0) (\<lambda>k. False) [] \<noteq> initialize_and_reconcile (\<lambda>i. 1) (\<lambda>k. False) []"
proof -
  have u: "[0..<NUM_CATEGORIES] = 0 # [1..<NUM_CATEGORIES]"
    by (simp add: NUM_CATEGORIES_def upt_conv_Cons)
  have a: "fst (get_random_word (\<lambda>i. 0)) = ''Electronics''"
    by (simp add: get_random_word_def choice_def randrange_def rng_next_def WORDS_def)
  have b: "fst (get_random_word (\<lambda>i. 1)) = ''Apparel''"
    by (simp add: get_random_word_def choice_def randrange_def rng_next_def WORDS_def)
  have "category_words [0..<NUM_CATEGORIES] (\<lambda>i. 0) = ''Electronics'' # category_words [1..<NUM_CATEGORIES] (\<lambda>i. 0)"
    unfolding u using a by (simp add: get_random_word_def choice_def randrange_def rng_next_def split: prod.split)
  moreover have "category_words [0..<NUM_CATEGORIES] (\<lambda>i. 1) = ''Apparel'' # category_words [1..<NUM_CATEGORIES] (\<lambda>i. 1)"
    unfolding u using b by (simp add: get_random_word_def choice_def randrange_def rng_next_def split: prod.split)
  ultimately show ?thesis
    by (simp add: initialize_and_reconcile_eq u category_entry_def)
qed

section \<open>Rounding to the nearest double\<close>

lemma round_half_even_cases:
  "(round_half_even x = \<lfloor>x\<rfloor> \<and> x - of_int \<lfloor>x\<rfloor> \<le> 1 / 2)
   \<or> (round_half_even x = \<lfloor>x\<rfloor> + 1 \<and> 1 / 2 \<le> x - of_int \<lfloor>x\<rfloor>)"
  by (auto simp: round_half_even_def Let_def)

lemma round_half_even_bounds:
  "of_int (round_half_even x) \<le> x + 1 / 2" "x - 1 / 2 \<le> of_int (round_half_even x)"
proof -
  have f: "of_int \<lfloor>x\<rfloor> \<le> x" "x < of_int \<lfloor>x\<rfloor> + 1" by linarith+
  from round_half_even_cases [of x]
  have "of_int (round_half_even x) \<le> x + 1 / 2 \<and> x - 1 / 2 \<le> of_int (round_half_even x)"
  proof (elim disjE conjE)
    assume r: "round_half_even x = \<lfloor>x\<rfloor>" and d: "x - of_int \<lfloor>x\<rfloor> \<le> 1 / 2"
    show ?thesis unfolding r using f d by linarith
  next
    assume r: "round_half_even x = \<lfloor>x\<rfloor> + 1" and d: "1 / 2 \<le> x - of_int \<lfloor>x\<rfloor>"
    have "(of_int (\<lfloor>x\<rfloor> + 1) :: rat) = of_int \<lfloor>x\<rfloor> + 1" by simp
    then show ?thesis unfolding r using f d by linarith
  qed
  then show "of_int (round_half_even x) \<le> x + 1 / 2" "x - 1 / 2 \<le> of_int (round_half_even x)"
    by simp_all
qed

lemma round_half_even_ge: "of_int a \<le> x \<Longrightarrow> a \<le> round_half_even x"
proof -
  assume "of_int a \<le> x"
  then have "a \<le> \<lfloor>x\<rfloor>" by (simp add: le_floor_iff)
  then show ?thesis using round_half_even_cases [of x] by linarith
qed

lemma round_half_even_le: "x \<le> of_int b \<Longrightarrow> round_half_even x \<le> b"
proof -
  assume xb: "x \<le> of_int b"
  have fl: "\<lfloor>x\<rfloor> \<le> b" using xb by (meson floor_le_iff le_less_trans less_add_one of_int_floor_le order_trans floor_mono floor_of_int)
  show ?thesis
  proof (cases "x = of_int \<lfloor>x\<rfloor>")
    case True
    then have "x - of_int \<lfloor>x\<rfloor> = 0" by simp
    then show ?thesis using fl by (simp add: round_half_even_def Let_def)
  next
    case False
    then have "of_int \<lfloor>x\<rfloor> < x" using of_int_floor_le [of x] by linarith
    then have "of_int \<lfloor>x\<rfloor> < (of_int b :: rat)" using xb by linarith
    then have "\<lfloor>x\<rfloor> < b" by simp
    then show ?thesis using round_half_even_cases [of x] by linarith
  qed
qed

lemma round_half_even_of_int [simp]: "round_half_even (of_int a) = a"
  by (simp add: round_half_even_def)

lemma round_half_even_near:
  assumes "\<bar>x - of_int m\<bar> < 1 / 2"
  shows "round_half_even x = m"
proof -
  have lo: "of_int m - 1 / 2 < x" and hi: "x < of_int m + 1 / 2"
    using assms by linarith+
  have "of_int (round_half_even x) < (of_int m :: rat) + 1"
    using round_half_even_bounds(1) [of x] hi by linarith
  then have "of_int (round_half_even x) < (of_int (m + 1) :: rat)" by simp
  then have u: "round_half_even x < m + 1" by (simp only: of_int_less_iff)
  have "(of_int m :: rat) - 1 < of_int (round_half_even x)"
    using round_half_even_bounds(2) [of x] lo by linarith
  then have "(of_int (m - 1) :: rat) < of_int (round_half_even x)" by simp
  then have "m - 1 < round_half_even x" by (simp only: of_int_less_iff)
  then show ?thesis using u by linarith
qed

lemma bexp_le_52:
  assumes "0 < x" "x < 2 ^ 53"
  shows "bexp x \<le> 52"
proof (cases "1 \<le> x")
  case True
  have "nat \<lfloor>x\<rfloor> < 2 ^ 53"
  proof -
    have "\<lfloor>x\<rfloor> < 2 ^ 53" using assms(2) by (simp add: floor_less_iff)
    moreover have "0 \<le> \<lfloor>x\<rfloor>" using assms(1) by simp
    ultimately have "nat \<lfloor>x\<rfloor> < nat (2 ^ 53)" by (simp only: nat_less_eq_zless)
    then show ?thesis by simp
  qed
  then have "floorlog 2 (nat \<lfloor>x\<rfloor>) \<le> 53"
    by (simp add: floorlog_le_iff)
  then show ?thesis using True by (simp add: bexp_def)
next
  case False
  then show ?thesis by (simp add: bexp_def)
qed

lemma fl_pos_between:
  assumes x: "0 < x" "x < 2 ^ 53" and a: "of_int a \<le> x" and b: "x \<le> of_int b"
  shows "of_int a \<le> fl_pos x \<and> fl_pos x \<le> of_int b"
proof -
  define k where "k = nat (min (52 - bexp x) 1074)"
  have e: "bexp x \<le> 52" using x by (rule bexp_le_52)
  have f: "fl_pos x = of_int (round_half_even (x * 2 ^ k)) / 2 ^ k"
    using e by (simp add: fl_pos_def Let_def k_def)
  have "of_int (a * 2 ^ k) \<le> x * 2 ^ k" using a by simp
  then have l: "a * 2 ^ k \<le> round_half_even (x * 2 ^ k)" by (rule round_half_even_ge)
  have "x * 2 ^ k \<le> of_int (b * 2 ^ k)" using b by simp
  then have u: "round_half_even (x * 2 ^ k) \<le> b * 2 ^ k" by (rule round_half_even_le)
  have "(of_int (a * 2 ^ k) :: rat) \<le> of_int (round_half_even (x * 2 ^ k))"
    using l by (simp only: of_int_le_iff)
  then have "of_int a \<le> fl_pos x"
    unfolding f by (simp add: le_divide_eq)
  moreover have "(of_int (round_half_even (x * 2 ^ k)) :: rat) \<le> of_int (b * 2 ^ k)"
    using u by (simp only: of_int_le_iff)
  then have "fl_pos x \<le> of_int b"
    unfolding f by (simp add: divide_le_eq)
  ultimately show ?thesis by simp
qed

lemma fl_between:
  assumes "0 \<le> a" "of_int a \<le> x" "x \<le> of_int b" "b < 2 ^ 53"
  shows "of_int a \<le> fl x \<and> fl x \<le> of_int b"
proof (cases "x = 0")
  case True
  then show ?thesis using assms by (simp add: fl_def)
next
  case False
  have "(0::rat) \<le> of_int a" using assms(1) by simp
  then have p: "0 < x" using False assms(2) by linarith
  have "(of_int b :: rat) < 2 ^ 53" using assms(4) by (metis of_int_less_iff of_int_numeral of_int_power)
  then have "x < 2 ^ 53" using assms(3) by linarith
  from fl_pos_between [OF p this assms(2,3)] show ?thesis using p by (simp add: fl_def)
qed

lemma fl_of_int: "0 \<le> a \<Longrightarrow> a < 2 ^ 53 \<Longrightarrow> fl (of_int a) = of_int a"
  using fl_between [of a "of_int a" a] by simp

section \<open>The ranges of a record's fields\<close>

lemma py_random_range: "0 \<le> fst (py_random g) \<and> fst (py_random g) < 1"
  by (simp add: py_random_def rng_next_def divide_less_eq)

lemma uniform_between:
  assumes "0 \<le> a" "a \<le> b" "b < 2 ^ 53"
  shows "of_int a \<le> fst (uniform (of_int a) (of_int b) g) \<and> fst (uniform (of_int a) (of_int b) g) \<le> of_int b"
proof -
  obtain u g' where u: "py_random g = (u, g')" by (cases "py_random g")
  have ur: "0 \<le> u" "u < 1" using py_random_range [of g] u by simp_all
  have d: "fl (of_int b - of_int a) = of_int (b - a)"
    using fl_of_int [of "b - a"] assms by simp
  have "(of_int (b - a) :: rat) * u \<le> of_int (b - a) * 1"
    using ur assms by (intro mult_left_mono) simp_all
  moreover have "0 \<le> (of_int (b - a) :: rat) * u" using ur assms by simp
  ultimately have "of_int 0 \<le> fl (of_int (b - a) * u) \<and> fl (of_int (b - a) * u) \<le> of_int (b - a)"
    using assms by (intro fl_between) simp_all
  then have "of_int a \<le> of_int a + fl (of_int (b - a) * u)" "of_int a + fl (of_int (b - a) * u) \<le> of_int b"
    by simp_all
  then have "of_int a \<le> fl (of_int a + fl (of_int (b - a) * u)) \<and> fl (of_int a + fl (of_int (b - a) * u)) \<le> of_int b"
    using assms by (intro fl_between) simp_all
  then show ?thesis by (simp add: uniform_def u d)
qed

lemma py_round_between:
  assumes "0 \<le> a" "b < 2 ^ 53" "of_int a \<le> x" "x \<le> of_int b"
  shows "of_int a \<le> py_round x nd \<and> py_round x nd \<le> of_int b
     \<and> (\<exists>m. a * 10 ^ nd \<le> m \<and> m \<le> b * 10 ^ nd \<and> py_round x nd = fl (of_int m / 10 ^ nd))"
proof -
  define m where "m = round_half_even (x * 10 ^ nd)"
  have "of_int (a * 10 ^ nd) \<le> x * 10 ^ nd" using assms(3) by simp
  then have l: "a * 10 ^ nd \<le> m" unfolding m_def by (rule round_half_even_ge)
  have "x * 10 ^ nd \<le> of_int (b * 10 ^ nd)" using assms(4) by simp
  then have h: "m \<le> b * 10 ^ nd" unfolding m_def by (rule round_half_even_le)
  have "(of_int (a * 10 ^ nd) :: rat) \<le> of_int m" using l by (simp only: of_int_le_iff)
  then have 1: "of_int a \<le> (of_int m :: rat) / 10 ^ nd" by (simp add: le_divide_eq)
  have "(of_int m :: rat) \<le> of_int (b * 10 ^ nd)" using h by (simp only: of_int_le_iff)
  then have 2: "(of_int m :: rat) / 10 ^ nd \<le> of_int b" by (simp add: divide_le_eq)
  have "of_int a \<le> fl (of_int m / 10 ^ nd) \<and> fl (of_int m / 10 ^ nd) \<le> of_int b"
    using assms 1 2 by (intro fl_between) simp_all
  then show ?thesis using l h by (auto simp: py_round_def m_def)
qed

lemma price_range:
  "10 \<le> py_round (fst (uniform 10 5000 g)) 2 \<and> py_round (fst (uniform 10 5000 g)) 2 \<le> 5000
   \<and> (\<exists>m. 1000 \<le> m \<and> m \<le> 500000 \<and> py_round (fst (uniform 10 5000 g)) 2 = fl (of_int m / 100))"
proof -
  have u: "of_int 10 \<le> fst (uniform (of_int 10) (of_int 5000) g) \<and> fst (uniform (of_int 10) (of_int 5000) g) \<le> of_int 5000"
    by (rule uniform_between) simp_all
  have "of_int 10 \<le> py_round (fst (uniform 10 5000 g)) 2 \<and> py_round (fst (uniform 10 5000 g)) 2 \<le> of_int 5000
     \<and> (\<exists>m. 10 * 10 ^ 2 \<le> m \<and> m \<le> 5000 * 10 ^ 2 \<and> py_round (fst (uniform 10 5000 g)) 2 = fl (of_int m / 10 ^ 2))"
    using u by (intro py_round_between) simp_all
  then show ?thesis by simp
qed

lemma rating_range:
  "3 \<le> py_round (fst (uniform 3 5 g)) 1 \<and> py_round (fst (uniform 3 5 g)) 1 \<le> 5
   \<and> (\<exists>m. 30 \<le> m \<and> m \<le> 50 \<and> py_round (fst (uniform 3 5 g)) 1 = fl (of_int m / 10))"
proof -
  have u: "of_int 3 \<le> fst (uniform (of_int 3) (of_int 5) g) \<and> fst (uniform (of_int 3) (of_int 5) g) \<le> of_int 5"
    by (rule uniform_between) simp_all
  have "of_int 3 \<le> py_round (fst (uniform 3 5 g)) 1 \<and> py_round (fst (uniform 3 5 g)) 1 \<le> of_int 5
     \<and> (\<exists>m. 3 * 10 ^ 1 \<le> m \<and> m \<le> 5 * 10 ^ 1 \<and> py_round (fst (uniform 3 5 g)) 1 = fl (of_int m / 10 ^ 1))"
    using u by (intro py_round_between) simp_all
  then show ?thesis by simp
qed

lemma generate_attributes_shape:
  "\<exists>ram sto col. ram \<in> set RAMS \<and> sto \<in> set STORAGES \<and> col \<in> set COLORS
     \<and> fst (generate_attributes [0..<ATTRIBUTES_PER_PRODUCT] g)
         = [PDict [(''k'', PStr ''RAM''), (''v'', PStr (str_nat ram @ ''GB''))],
            PDict [(''k'', PStr ''Storage''), (''v'', PStr (str_nat sto @ ''GB SSD''))],
            PDict [(''k'', PStr ''Color''), (''v'', PStr col)]]"
proof -
  have upt: "[0..<ATTRIBUTES_PER_PRODUCT] = [0, 1, 2]"
    by (simp add: ATTRIBUTES_PER_PRODUCT_def upt_rec numeral_2_eq_2)
  obtain ram g1 where r: "choice RAMS g = (ram, g1)" by (cases "choice RAMS g")
  obtain sto g2 where s: "choice STORAGES g1 = (sto, g2)" by (cases "choice STORAGES g1")
  obtain col g3 where c: "choice COLORS g2 = (col, g3)" by (cases "choice COLORS g2")
  have "ram \<in> set RAMS" using choice_in_set [of RAMS g] r by (simp add: RAMS_def)
  moreover have "sto \<in> set STORAGES" using choice_in_set [of STORAGES g1] s by (simp add: STORAGES_def)
  moreover have "col \<in> set COLORS" using choice_in_set [of COLORS g2] c by (simp add: COLORS_def)
  moreover have "fst (generate_attributes [0..<ATTRIBUTES_PER_PRODUCT] g)
         = [PDict [(''k'', PStr ''RAM''), (''v'', PStr (str_nat ram @ ''GB''))],
            PDict [(''k'', PStr ''Storage''), (''v'', PStr (str_nat sto @ ''GB SSD''))],
            PDict [(''k'', PStr ''Color''), (''v'', PStr col)]]"
    unfolding upt by (simp add: generate_attribute_def r s c)
  ultimately show ?thesis by blast
qed

lemma product_shape:
  "\<exists>name p r ram sto col v c g'.
     generate_product_json gid g
       = ((PDict [(''name'', PStr name), (''price'', PFloat p), (''rating'', PFloat r),
                  (''attributs'', PList [PDict [(''k'', PStr ''RAM''), (''v'', PStr (str_nat ram @ ''GB''))],
                                         PDict [(''k'', PStr ''Storage''), (''v'', PStr (str_nat sto @ ''GB SSD''))],
                                         PDict [(''k'', PStr ''Color''), (''v'', PStr col)]]),
                  (''category_id'', PInt (int c)), (''vendor_id'', PInt (int v)),
                  (''product_id'', PInt gid)], v, c), g')
     \<and> name \<in> set PHRASES \<and> ram \<in> set RAMS \<and> sto \<in> set STORAGES \<and> col \<in> set COLORS
     \<and> c < NUM_CATEGORIES \<and> v < VENDOR_COUNT
     \<and> 10 \<le> p \<and> p \<le> 5000 \<and> (\<exists>m. 1000 \<le> m \<and> m \<le> 500000 \<and> p = fl (of_int m / 100))
     \<and> 3 \<le> r \<and> r \<le> 5 \<and> (\<exists>m. 30 \<le> m \<and> m \<le> 50 \<and> r = fl (of_int m / 10))"
proof -
  obtain attrs g1 where a: "generate_attributes [0..<ATTRIBUTES_PER_PRODUCT] g = (attrs, g1)"
    by (cases "generate_attributes [0..<ATTRIBUTES_PER_PRODUCT] g")
  obtain v g2 where v: "randrange VENDOR_COUNT g1 = (v, g2)" by (cases "randrange VENDOR_COUNT g1")
  obtain c g3 where c: "randrange NUM_CATEGORIES g2 = (c, g3)" by (cases "randrange NUM_CATEGORIES g2")
  obtain name g4 where n: "get_random_phrase g3 = (name, g4)" by (cases "get_random_phrase g3")
  obtain p g5 where p: "uniform 10 5000 g4 = (p, g5)" by (cases "uniform 10 5000 g4")
  obtain r g6 where r: "uniform 3 5 g5 = (r, g6)" by (cases "uniform 3 5 g5")
  from generate_attributes_shape [of g] a obtain ram sto col where
    at: "ram \<in> set RAMS" "sto \<in> set STORAGES" "col \<in> set COLORS"
      "attrs = [PDict [(''k'', PStr ''RAM''), (''v'', PStr (str_nat ram @ ''GB''))],
            PDict [(''k'', PStr ''Storage''), (''v'', PStr (str_nat sto @ ''GB SSD''))],
            PDict [(''k'', PStr ''Color''), (''v'', PStr col)]]"
    by auto
  have vl: "v < VENDOR_COUNT" using randrange_less [OF v] by (simp add: VENDOR_COUNT_def)
  have cl: "c < NUM_CATEGORIES" using randrange_less [OF c] by (simp add: NUM_CATEGORIES_def)
  have nm: "name \<in> set PHRASES"
    using choice_in_set [of PHRASES g3] n by (simp add: get_random_phrase_def PHRASES_def)
  have pr: "10 \<le> py_round p 2 \<and> py_round p 2 \<le> 5000
     \<and> (\<exists>m. 1000 \<le> m \<and> m \<le> 500000 \<and> py_round p 2 = fl (of_int m / 100))"
    using price_range [of g4] p by simp
  have rr: "3 \<le> py_round r 1 \<and> py_round r 1 \<le> 5
     \<and> (\<exists>m. 30 \<le> m \<and> m \<le> 50 \<and> py_round r 1 = fl (of_int m / 10))"
    using rating_range [of g5] r by simp
  have "generate_product_json gid g
       = ((PDict [(''name'', PStr name), (''price'', PFloat (py_round p 2)), (''rating'', PFloat (py_round r 1)),
                  (''attributs'', PList attrs),
                  (''category_id'', PInt (int c)), (''vendor_id'', PInt (int v)),
                  (''product_id'', PInt gid)], v, c), g6)"
    by (simp add: generate_product_json_def a v c n p r)
  then show ?thesis using at vl cl nm pr rr by blast
qed

text \<open>
  Claim C3. In every record \<^verbatim>\<open>generate_product_json\<close> builds, whatever the random source:
  \<^verbatim>\<open>category_id\<close> is the returned category id, an integer in \<open>[0, NUM_CATEGORIES)\<close>;
  \<^verbatim>\<open>vendor_id\<close> is the returned vendor id, an integer in \<open>[0, VENDOR_COUNT)\<close>; \<^verbatim>\<open>price\<close> is a
  double in \<open>[10, 5000]\<close>, the nearest one to a decimal with two places; \<^verbatim>\<open>rating\<close> is a
  double in \<open>[3, 5]\<close>, the nearest one to a decimal with one place; and the attribute list
  has exactly \<open>ATTRIBUTES_PER_PRODUCT\<close> entries: a RAM entry \<^verbatim>\<open>"<n>GB"\<close> with \<open>n\<close> from the
  RAM sizes, a Storage entry \<^verbatim>\<open>"<n>GB SSD"\<close> with \<open>n\<close> from the storage sizes, and a Color
  entry with a colour of the colour table.
\<close>

theorem product_field_ranges:
  "\<exists>d p r attrs ram sto col v c.
     fst (generate_product_json gid g) = (PDict d, v, c)
     \<and> dict_get d ''category_id'' = Some (PInt (int c)) \<and> c < NUM_CATEGORIES
     \<and> dict_get d ''vendor_id'' = Some (PInt (int v)) \<and> v < VENDOR_COUNT
     \<and> dict_get d ''price'' = Some (PFloat p) \<and> 10 \<le> p \<and> p \<le> 5000 \<and> (\<exists>m. p = fl (of_int m / 100))
     \<and> dict_get d ''rating'' = Some (PFloat r) \<and> 3 \<le> r \<and> r \<le> 5 \<and> (\<exists>m. r = fl (of_int m / 10))
     \<and> dict_get d ''attributs'' = Some (PList attrs) \<and> length attrs = ATTRIBUTES_PER_PRODUCT
     \<and> attrs = [PDict [(''k'', PStr ''RAM''), (''v'', PStr (str_nat ram @ ''GB''))],
                 PDict [(''k'', PStr ''Storage''), (''v'', PStr (str_nat sto @ ''GB SSD''))],
                 PDict [(''k'', PStr ''Color''), (''v'', PStr col)]]
     \<and> ram \<in> set RAMS \<and> sto \<in> set STORAGES \<and> col \<in> set COLORS"
proof -
  from product_shape [of gid g] obtain name p r ram sto col v c g' where
    e: "generate_product_json gid g
       = ((PDict [(''name'', PStr name), (''price'', PFloat p), (''rating'', PFloat r),
                  (''attributs'', PList [PDict [(''k'', PStr ''RAM''), (''v'', PStr (str_nat ram @ ''GB''))],
                                         PDict [(''k'', PStr ''Storage''), (''v'', PStr (str_nat sto @ ''GB SSD''))],
                                         PDict [(''k'', PStr ''Color''), (''v'', PStr col)]]),
                  (''category_id'', PInt (int c)), (''vendor_id'', PInt (int v)),
                  (''product_id'', PInt gid)], v, c), g')"
    and f: "ram \<in> set RAMS" "sto \<in> set STORAGES" "col \<in> set COLORS" "c < NUM_CATEGORIES" "v < VENDOR_COUNT"
      "10 \<le> p" "p \<le> 5000" "\<exists>m. 1000 \<le> m \<and> m \<le> 500000 \<and> p = fl (of_int m / 100)"
      "3 \<le> r" "r \<le> 5" "\<exists>m. 30 \<le> m \<and> m \<le> 50 \<and> r = fl (of_int m / 10)"
    by blast
  have p: "\<exists>m. p = fl (of_int m / 100)" using f(8) by blast
  have r: "\<exists>m. r = fl (of_int m / 10)" using f(11) by blast
  show ?thesis
    unfolding e using f(1-7) f(9,10) p r
    by (auto simp: ATTRIBUTES_PER_PRODUCT_def)
qed


section \<open>Decimal digits\<close>

lemma of_char_digit_char: "d < 10 \<Longrightarrow> (of_char (digit_char d) :: nat) = 48 + d"
  by (simp add: digit_char_def)

lemma is_digit_digit_char: "d < 10 \<Longrightarrow> is_digit (digit_char d)"
  by (simp add: is_digit_def of_char_digit_char)

lemma foldl_digits_shift:
  "foldl (\<lambda>a c. 10 * a + ((of_char c :: nat) - 48)) acc b
   = acc * 10 ^ length b + foldl (\<lambda>a c. 10 * a + ((of_char c :: nat) - 48)) 0 b"
proof (induction b arbitrary: acc)
  case Nil
  then show ?case by simp
next
  case (Cons c b)
  define d where "d = (of_char c :: nat) - 48"
  define F where "F = foldl (\<lambda>a c. 10 * a + ((of_char c :: nat) - 48))"
  have 1: "F (10 * acc + d) b = (10 * acc + d) * 10 ^ length b + F 0 b"
    unfolding F_def by (rule Cons.IH)
  have 2: "F d b = d * 10 ^ length b + F 0 b"
    unfolding F_def by (rule Cons.IH)
  have "F acc (c # b) = F (10 * acc + d) b" "F 0 (c # b) = F d b"
    by (simp_all add: F_def d_def)
  then have "F acc (c # b) = acc * 10 ^ length (c # b) + F 0 (c # b)"
    by (simp only: 1 2) (simp add: algebra_simps)
  then show ?case by (simp only: F_def)
qed

lemma digits_val_append: "digits_val (a @ b) = digits_val a * 10 ^ length b + digits_val b"
  unfolding digits_val_def foldl_append by (rule foldl_digits_shift)

lemma digits_val_single: "d < 10 \<Longrightarrow> digits_val [digit_char d] = d"
  by (simp add: digits_val_def of_char_digit_char)

lemma digits_val_Nil [simp]: "digits_val [] = 0"
  by (simp add: digits_val_def)

lemma str_nat_small: "n < 10 \<Longrightarrow> str_nat n = [digit_char n]"
  by (simp add: str_nat.simps [of n])

lemma str_nat_large: "\<not> n < 10 \<Longrightarrow> str_nat n = str_nat (n div 10) @ [digit_char (n mod 10)]"
  by (simp add: str_nat.simps [of n])

lemma str_nat_digits: "list_all is_digit (str_nat n)"
proof (induction n rule: str_nat.induct)
  case (1 n)
  show ?case
  proof (cases "n < 10")
    case True
    then show ?thesis by (simp add: str_nat_small is_digit_digit_char)
  next
    case False
    then have "list_all is_digit (str_nat (n div 10))" by (rule 1)
    then show ?thesis by (simp add: str_nat_large [OF False] is_digit_digit_char)
  qed
qed

lemma str_nat_nonempty: "str_nat n \<noteq> []"
  by (cases "n < 10") (simp_all add: str_nat_small str_nat_large)

lemma digits_val_str_nat: "digits_val (str_nat n) = n"
proof (induction n rule: str_nat.induct)
  case (1 n)
  show ?case
  proof (cases "n < 10")
    case True
    then show ?thesis by (simp add: str_nat_small digits_val_single)
  next
    case False
    then have "digits_val (str_nat (n div 10)) = n div 10" by (rule 1)
    then show ?thesis
      by (simp add: str_nat_large [OF False] digits_val_append digits_val_single)
  qed
qed

lemma digit_char_nonzero: "0 < d \<Longrightarrow> d < 10 \<Longrightarrow> digit_char d \<noteq> CHR ''0''"
proof
  assume d: "0 < d" "d < 10" and "digit_char d = CHR ''0''"
  then have "(of_char (digit_char d) :: nat) = of_char CHR ''0''" by simp
  then show False using d by (simp add: of_char_digit_char)
qed

lemma hd_str_nat: "0 < n \<Longrightarrow> hd (str_nat n) \<noteq> CHR ''0''"
proof (induction n rule: str_nat.induct)
  case (1 n)
  show ?case
  proof (cases "n < 10")
    case True
    then show ?thesis using "1.prems" by (simp add: str_nat_small digit_char_nonzero)
  next
    case False
    then have "0 < n div 10" by simp
    with False have "hd (str_nat (n div 10)) \<noteq> CHR ''0''" by (rule 1)
    then show ?thesis using str_nat_nonempty [of "n div 10"]
      by (simp add: str_nat_large [OF False])
  qed
qed

lemma digit_char_zero: "digit_char 0 = CHR ''0''"
proof -
  have "(of_char (digit_char 0) :: nat) = of_char CHR ''0''"
    by (simp add: of_char_digit_char)
  then show ?thesis by (simp only: of_char_eq_iff)
qed

lemma str_nat_zero: "str_nat 0 = ''0''"
  by (simp add: str_nat_small digit_char_zero)

lemma str_nat_no_leading_zero: "1 < length (str_nat n) \<Longrightarrow> hd (str_nat n) \<noteq> CHR ''0''"
  by (cases "n = 0") (simp_all add: str_nat_zero hd_str_nat)

lemma digits_val_replicate_zero: "digits_val (ds @ replicate z CHR ''0'') = digits_val ds * 10 ^ z"
proof -
  have "digits_val (replicate z CHR ''0'') = 0"
    by (induction z) (simp_all add: digits_val_def)
  then show ?thesis by (simp add: digits_val_append)
qed

lemma strip_zeros_rev_eq: "\<exists>z. cs = replicate z CHR ''0'' @ strip_zeros_rev cs \<and> (cs \<noteq> [] \<longrightarrow> strip_zeros_rev cs \<noteq> [])"
proof (induction cs)
  case Nil
  then show ?case by simp
next
  case (Cons c cs)
  show ?case
  proof (cases "c = CHR ''0'' \<and> cs \<noteq> []")
    case True
    from Cons obtain z where z: "cs = replicate z CHR ''0'' @ strip_zeros_rev cs" "strip_zeros_rev cs \<noteq> []"
      using True by blast
    have "c # cs = replicate (Suc z) CHR ''0'' @ strip_zeros_rev (c # cs)"
      using True z(1) by simp
    then show ?thesis using True z(2) by (intro exI [of _ "Suc z"]) simp
  next
    case False
    then have "strip_zeros_rev (c # cs) = c # cs" by auto
    then show ?thesis by (intro exI [of _ 0]) simp
  qed
qed

lemma strip_zeros_eq:
  assumes "ds \<noteq> []"
  shows "\<exists>z. ds = strip_zeros ds @ replicate z CHR ''0'' \<and> strip_zeros ds \<noteq> []"
proof -
  from strip_zeros_rev_eq [of "rev ds"] assms obtain z where
    z: "rev ds = replicate z CHR ''0'' @ strip_zeros_rev (rev ds)" "strip_zeros_rev (rev ds) \<noteq> []"
    by auto
  have "ds = rev (rev ds)" by simp
  also have "\<dots> = rev (strip_zeros_rev (rev ds)) @ replicate z CHR ''0''"
    by (subst z(1)) simp
  finally show ?thesis using z(2) by (auto simp: strip_zeros_def)
qed

lemma span_digits:
  assumes "list_all is_digit ds" "rest = [] \<or> \<not> is_digit (hd rest)"
  shows "takeWhile is_digit (ds @ rest) = ds" "dropWhile is_digit (ds @ rest) = rest"
proof -
  have r: "takeWhile is_digit rest = []" "dropWhile is_digit rest = rest"
    using assms(2) by (cases rest, simp, simp)+
  have a: "\<forall>x\<in>set ds. is_digit x" using assms(1) by (simp add: list_all_iff)
  show "takeWhile is_digit (ds @ rest) = ds" using a r by (simp add: takeWhile_append2)
  show "dropWhile is_digit (ds @ rest) = rest" using a r by (simp add: dropWhile_append2)
qed

section \<open>Reading back the text of a float\<close>

lemma dexp10_bounds:
  assumes "1 \<le> x"
  shows "0 \<le> dexp10 x" "10 ^ nat (dexp10 x) \<le> x" "x < 10 ^ (nat (dexp10 x) + 1)"
proof -
  define N where "N = nat \<lfloor>x\<rfloor>"
  have N: "0 < N" using assms by (simp add: N_def)
  have d: "dexp10 x = int (floorlog 10 N) - 1"
    using assms by (simp add: dexp10_def N_def)
  have b: "10 ^ (floorlog 10 N - 1) \<le> N" "N < 10 ^ floorlog 10 N"
    using floorlog_bounds [of N 10] N by simp_all
  have f: "0 < floorlog 10 N" using N by (simp add: floorlog_def)
  then have n: "nat (dexp10 x) = floorlog 10 N - 1" "nat (dexp10 x) + 1 = floorlog 10 N"
    unfolding d by simp_all
  show "0 \<le> dexp10 x" unfolding d using f by simp
  have fx: "0 \<le> \<lfloor>x\<rfloor>" using assms by simp
  have "of_int \<lfloor>x\<rfloor> \<le> x" "x < of_int \<lfloor>x\<rfloor> + 1" by linarith+
  moreover have "(of_nat N :: rat) = of_int \<lfloor>x\<rfloor>"
    unfolding N_def using fx by simp
  ultimately have Nx: "(of_nat N :: rat) \<le> x" "x < of_nat N + 1"
    by simp_all
  have "(10::rat) ^ (floorlog 10 N - 1) = of_nat (10 ^ (floorlog 10 N - 1))" by simp
  also have "\<dots> \<le> of_nat N" using b(1) by (simp only: of_nat_le_iff)
  also have "\<dots> \<le> x" by (rule Nx(1))
  finally show "10 ^ nat (dexp10 x) \<le> x" unfolding n .
  have "N + 1 \<le> 10 ^ floorlog 10 N" using b(2) by simp
  then have "(of_nat (N + 1) :: rat) \<le> of_nat (10 ^ floorlog 10 N)"
    by (simp only: of_nat_le_iff)
  also have "\<dots> = 10 ^ floorlog 10 N" by simp
  finally have "of_nat N + 1 \<le> (10::rat) ^ floorlog 10 N" by simp
  then have "x < 10 ^ floorlog 10 N" using Nx(2) by linarith
  then show "x < 10 ^ (nat (dexp10 x) + 1)" by (simp only: n(2))
qed

lemma dexp10_le_3:
  assumes "1 \<le> x" "x \<le> 5000"
  shows "nat (dexp10 x) \<le> 3"
proof -
  have "(10::rat) ^ nat (dexp10 x) < 10 ^ 4"
    using dexp10_bounds(2) [OF assms(1)] assms(2) by simp
  then have "nat (dexp10 x) < 4"
    by (simp only: power_strict_increasing_iff) 
  then show ?thesis by simp
qed

lemma powi_diff_nat:
  "(10::rat) powi (int a - int b) = 10 ^ a / 10 ^ b"
  by (simp add: power_int_diff)

lemma sig_mantissa_bounds:
  assumes "1 \<le> x" "0 < n"
  shows "10 ^ (n - 1) \<le> sig_mantissa x n" "sig_mantissa x n \<le> 10 ^ n"
proof -
  define d where "d = nat (dexp10 x)"
  define y where "y = x * 10 ^ (n - 1) / 10 ^ d"
  have dd: "dexp10 x = int d" using dexp10_bounds(1) [OF assms(1)] by (simp add: d_def)
  have e: "int n - 1 - dexp10 x = int (n - 1) - int d" using assms(2) dd by simp
  have m: "sig_mantissa x n = nat (round_half_even y)"
    unfolding sig_mantissa_def e powi_diff_nat y_def by simp
  have lo: "10 ^ d \<le> x" and hi: "x < 10 ^ (d + 1)"
    using dexp10_bounds(2,3) [OF assms(1)] by (simp_all add: d_def)
  have "10 ^ (n - 1) * 10 ^ d \<le> x * 10 ^ (n - 1)"
    using lo by simp
  then have "(10::rat) ^ (n - 1) \<le> y"
    unfolding y_def by (simp add: le_divide_eq)
  then have "of_int (10 ^ (n - 1)) \<le> y" by simp
  then have l: "10 ^ (n - 1) \<le> round_half_even y" by (rule round_half_even_ge)
  have "x * 10 ^ (n - 1) \<le> 10 ^ (d + 1) * 10 ^ (n - 1)"
    using hi by simp
  also have "\<dots> = (10::rat) ^ n * 10 ^ d"
    using assms(2) by (cases n) simp_all
  finally have "y \<le> 10 ^ n"
    unfolding y_def by (simp add: divide_le_eq)
  then have "y \<le> of_int (10 ^ n)" by simp
  then have u: "round_half_even y \<le> 10 ^ n" by (rule round_half_even_le)
  have p: "0 \<le> round_half_even y" using l by (meson order_trans zero_le_numeral zero_le_power)
  have "int (10 ^ (n - 1)) \<le> int (nat (round_half_even y))" using l p by simp
  then show "10 ^ (n - 1) \<le> sig_mantissa x n" unfolding m by (simp only: of_nat_le_iff)
  have "int (nat (round_half_even y)) \<le> int (10 ^ n)" using u p by simp
  then show "sig_mantissa x n \<le> 10 ^ n" unfolding m by (simp only: of_nat_le_iff)
qed

lemma round_sig_eq:
  assumes "1 \<le> x" "0 < n"
  shows "round_sig x n = of_nat (sig_mantissa x n) * 10 ^ nat (dexp10 x) / 10 ^ (n - 1)"
proof -
  define d where "d = nat (dexp10 x)"
  have dd: "dexp10 x = int d" using dexp10_bounds(1) [OF assms(1)] by (simp add: d_def)
  have e: "int n - 1 - dexp10 x = int (n - 1) - int d" using assms(2) dd by simp
  show ?thesis
    unfolding round_sig_def e powi_diff_nat d_def [symmetric] by simp
qed

lemma length_str_nat_le: "M < 10 ^ k \<Longrightarrow> 0 < k \<Longrightarrow> length (str_nat M) \<le> k"
proof (induction k arbitrary: M)
  case 0
  then show ?case by simp
next
  case (Suc k)
  show ?case
  proof (cases "M < 10")
    case True
    then show ?thesis by (simp add: str_nat_small)
  next
    case False
    then have k: "0 < k" using Suc.prems by (cases k) simp_all
    have "M div 10 < 10 ^ k" using Suc.prems by (simp add: div_less_iff_less_mult mult.commute)
    from Suc.IH [OF this k] show ?thesis by (simp add: str_nat_large [OF False])
  qed
qed

lemma length_str_nat_gt: "10 ^ k \<le> M \<Longrightarrow> k < length (str_nat M)"
proof (induction k arbitrary: M)
  case 0
  then show ?case using str_nat_nonempty [of M] by (cases "str_nat M") simp_all
next
  case (Suc k)
  then have nl: "\<not> M < 10"
    by (metis One_nat_def le_less_trans not_less one_le_numeral one_le_power power_one_right
        power_increasing le_add1 plus_1_eq_Suc)
  have "10 ^ k \<le> M div 10" using Suc.prems by (simp add: less_eq_div_iff_mult_less_eq mult.commute)
  from Suc.IH [OF this] show ?case by (simp add: str_nat_large [OF nl])
qed

lemma bexp_range:
  assumes "1 \<le> x" "x < 2 ^ 13"
  shows "0 \<le> bexp x" "bexp x \<le> 12"
proof -
  define N where "N = nat \<lfloor>x\<rfloor>"
  have N: "0 < N" using assms by (simp add: N_def)
  have "\<lfloor>x\<rfloor> < 2 ^ 13" using assms(2) by (simp add: floor_less_iff)
  moreover have "0 \<le> \<lfloor>x\<rfloor>" using assms(1) by simp
  ultimately have "nat \<lfloor>x\<rfloor> < nat (2 ^ 13)" by (simp only: nat_less_eq_zless)
  then have "N < 2 ^ 13" by (simp add: N_def)
  then have "floorlog 2 N \<le> 13" by (simp add: floorlog_le_iff)
  moreover have "0 < floorlog 2 N" using N by (simp add: floorlog_def)
  moreover have "bexp x = int (floorlog 2 N) - 1" using assms(1) by (simp add: bexp_def N_def)
  ultimately show "0 \<le> bexp x" "bexp x \<le> 12" by simp_all
qed

lemma fl_error:
  assumes "1 \<le> x" "x < 2 ^ 13"
  shows "\<bar>fl x - x\<bar> \<le> 1 / 2 ^ 41"
proof -
  define k where "k = nat (52 - bexp x)"
  define z where "z = x * 2 ^ k"
  note e = bexp_range [OF assms]
  have k: "40 \<le> k" using e by (simp add: k_def)
  have m: "nat (min (52 - bexp x) 1074) = k" using e by (simp add: k_def)
  have f: "fl x = of_int (round_half_even z) / 2 ^ k"
    unfolding k_def z_def using assms(1) e by (simp add: fl_def fl_pos_def Let_def)
  have x: "x = z / 2 ^ k" by (simp add: z_def)
  have "(of_int (round_half_even z) - z) / 2 ^ k = of_int (round_half_even z) / 2 ^ k - z / 2 ^ k"
    by (simp add: diff_divide_distrib)
  also have "\<dots> = fl x - x"
    by (simp only: f x [symmetric])
  finally have "fl x - x = (of_int (round_half_even z) - z) / 2 ^ k" by simp
  then have "\<bar>fl x - x\<bar> = \<bar>of_int (round_half_even z) - z\<bar> / 2 ^ k"
    by (simp add: abs_divide)
  also have "\<dots> \<le> (1 / 2) / 2 ^ k"
  proof -
    have "\<bar>of_int (round_half_even z) - z\<bar> \<le> 1 / 2"
      using round_half_even_bounds [of z] by linarith
    then show ?thesis by (rule divide_right_mono) simp
  qed
  also have "\<dots> = 1 / 2 ^ (k + 1)" by simp
  also have "\<dots> \<le> 1 / 2 ^ 41"
  proof -
    have "(2::rat) ^ 41 \<le> 2 ^ (k + 1)"
      by (rule power_increasing) (use k in simp_all)
    then show ?thesis by (simp only: frac_le zero_less_power zero_less_numeral order_refl zero_le_one)
  qed
  finally show ?thesis .
qed

lemma repr_digits_exist:
  assumes a: "1 \<le> a" and b: "b \<le> 5000" and k: "k \<le> 2"
    and lo: "a * 10 ^ k \<le> m" and hi: "m \<le> b * 10 ^ k"
  shows "1 \<le> fl (of_int m / 10 ^ k) \<and> fl (of_int m / 10 ^ k) \<le> 5000
     \<and> (\<exists>n\<in>set [1..<18]. fl (round_sig (fl (of_int m / 10 ^ k)) n) = fl (of_int m / 10 ^ k))"
proof -
  define y :: rat where "y = of_int m / 10 ^ k"
  define x where "x = fl y"
  define d where "d = nat (dexp10 x)"
  have "(of_int (a * 10 ^ k) :: rat) \<le> of_int m" using lo by (simp only: of_int_le_iff)
  then have ya: "of_int a \<le> y" by (simp add: y_def le_divide_eq)
  have "(of_int m :: rat) \<le> of_int (b * 10 ^ k)" using hi by (simp only: of_int_le_iff)
  then have yb: "y \<le> of_int b" by (simp add: y_def divide_le_eq)
  have a0: "0 \<le> a" using a by simp
  have b53: "b < 2 ^ 53" using b by simp
  have xab: "of_int a \<le> x \<and> x \<le> of_int b"
    unfolding x_def by (rule fl_between [OF a0 ya yb b53])
  have "(1::rat) \<le> of_int a" using a by simp
  then have x1: "1 \<le> x" and y1: "1 \<le> y" using xab ya by linarith+
  have "(of_int b :: rat) \<le> 5000" using b by (metis of_int_le_iff of_int_numeral)
  then have x5: "x \<le> 5000" and y5: "y \<le> 5000" using xab yb by linarith+
  have "y < 2 ^ 13" using y5 by simp
  from fl_error [OF y1 this] have err: "\<bar>x - y\<bar> \<le> 1 / 2 ^ 41" by (simp add: x_def)
  have m0: "0 \<le> m"
  proof -
    have "0 \<le> a * 10 ^ k" using a0 by simp
    then show ?thesis using lo by linarith
  qed
  have k100: "(10::rat) ^ k \<le> 100"
  proof -
    have "(10::rat) ^ k \<le> 10 ^ 2" by (rule power_increasing) (use k in simp_all)
    then show ?thesis by simp
  qed
  have "x * 10 ^ k - of_int m = (x - y) * 10 ^ k" by (simp add: y_def algebra_simps)
  then have "\<bar>x * 10 ^ k - of_int m\<bar> = \<bar>x - y\<bar> * 10 ^ k" by (simp add: abs_mult)
  also have "\<dots> \<le> (1 / 2 ^ 41) * 100"
    by (rule mult_mono) (use err k100 in simp_all)
  also have "\<dots> < 1 / 2" by simp
  finally have r: "round_half_even (x * 10 ^ k) = m" by (rule round_half_even_near)
  have d3: "d \<le> 3" unfolding d_def by (rule dexp10_le_3 [OF x1 x5])
  define n where "n = d + 1 + k"
  have n: "0 < n" "n - 1 = d + k" by (simp_all add: n_def)
  have dd: "dexp10 x = int d" using dexp10_bounds(1) [OF x1] by (simp add: d_def)
  have e: "int n - 1 - dexp10 x = int k" by (simp add: n_def dd)
  have s: "sig_mantissa x n = nat m"
    unfolding sig_mantissa_def e by (simp add: r)
  have "round_sig x n = of_nat (nat m) * 10 ^ d / 10 ^ (d + k)"
    unfolding round_sig_eq [OF x1 n(1)] s n(2) d_def ..
  also have "\<dots> = y"
    using m0 by (simp add: y_def power_add)
  finally have "fl (round_sig x n) = x" by (simp add: x_def)
  moreover have "n \<in> set [1..<18]" using d3 k by (simp add: n_def)
  ultimately show ?thesis using x1 x5 unfolding x_def y_def by blast
qed

lemma shortest_digits_ok:
  assumes "\<exists>n\<in>set [1..<18]. fl (round_sig x n) = x"
  shows "fl (round_sig x (shortest_digits x)) = x" "0 < shortest_digits x" "shortest_digits x < 18"
proof -
  have "find (\<lambda>n. fl (round_sig x n) = x) [1..<18] \<noteq> None"
    using assms by (simp only: find_None_iff) blast
  then obtain n where f: "find (\<lambda>n. fl (round_sig x n) = x) [1..<18] = Some n" by blast
  then have s: "shortest_digits x = n" by (simp add: shortest_digits_def)
  from f have "fl (round_sig x n) = x \<and> n \<in> set [1..<18]"
    by (auto simp only: find_Some_iff dest: nth_mem) 
  then show "fl (round_sig x (shortest_digits x)) = x" "0 < shortest_digits x" "shortest_digits x < 18"
    unfolding s by simp_all
qed

lemma parse_unsigned_frac:
  assumes ip: "list_all is_digit ip" "ip \<noteq> []" "1 < length ip \<longrightarrow> hd ip \<noteq> CHR ''0''"
    and fp: "list_all is_digit fp" "fp \<noteq> []"
    and rest: "rest = [] \<or> (\<not> is_digit (hd rest) \<and> \<not> starts_exponent rest)"
    and bound: "\<not> 2 ^ 1024 \<le> fl (of_nat (digits_val (ip @ fp)) / 10 ^ length fp)"
  shows "parse_unsigned (ip @ ''.'' @ fp @ rest)
       = Some ((True, fl (of_nat (digits_val (ip @ fp)) / 10 ^ length fp)), rest)"
proof -
  have nd: "''.'' @ fp @ rest = [] \<or> \<not> is_digit (hd (''.'' @ fp @ rest))"
    by (simp add: is_digit_def)
  note sp = span_digits [OF ip(1) nd]
  have nd2: "rest = [] \<or> \<not> is_digit (hd rest)" using rest by auto
  note sp2 = span_digits [OF fp(1) nd2]
  have se: "\<not> starts_exponent rest" using rest by (auto simp: starts_exponent_def)
  have e: "parse_unsigned (ip @ ''.'' @ fp @ rest) =
     (if ip = [] \<or> (1 < length ip \<and> hd ip = CHR ''0'') then None
      else (let fp' = takeWhile is_digit (fp @ rest); s3 = dropWhile is_digit (fp @ rest);
                x = fl (of_nat (digits_val (ip @ fp')) / 10 ^ length fp')
            in if fp' = [] \<or> starts_exponent s3 \<or> 2 ^ 1024 \<le> x then None
               else Some ((True, x), s3)))"
    unfolding parse_unsigned_def sp Let_def by simp
  show ?thesis
    unfolding e sp2 Let_def using ip(2,3) fp(2) se bound by (simp del: power_numeral)
qed

lemma is_digit_zero: "is_digit CHR ''0''"
  by (simp add: is_digit_def)

lemma digits_val_snoc_zero: "digits_val (ds @ ''0'') = digits_val ds * 10"
  using digits_val_replicate_zero [of ds 1] by simp

lemma fixed_text_parse:
  assumes D: "list_all is_digit D" "D \<noteq> []" "hd D \<noteq> CHR ''0''" and p: "0 < p"
    and rest: "rest = [] \<or> (\<not> is_digit (hd rest) \<and> \<not> starts_exponent rest)"
    and bound: "\<not> 2 ^ 1024 \<le> fl (of_nat (digits_val D) * 10 powi (int p - int (length D)))"
  shows "parse_unsigned
           ((if int (length D) \<le> int p then D @ replicate (p - length D) CHR ''0'' @ ''.0''
             else take p D @ ''.'' @ drop p D) @ rest)
       = Some ((True, fl (of_nat (digits_val D) * 10 powi (int p - int (length D)))), rest)"
proof (cases "length D \<le> p")
  case True
  define z where "z = p - length D"
  define ip where "ip = D @ replicate z CHR ''0''"
  have pz: "int p - int (length D) = int z" using True by (simp add: z_def)
  have v: "of_nat (digits_val (ip @ ''0'')) / 10 ^ length ''0''
      = (of_nat (digits_val D) * 10 powi (int p - int (length D)) :: rat)"
  proof -
    have "digits_val (ip @ ''0'') = digits_val D * 10 ^ z * 10"
      by (simp only: digits_val_snoc_zero ip_def digits_val_replicate_zero)
    then show ?thesis unfolding pz by simp
  qed
  have 1: "list_all is_digit ip" using D(1) by (auto simp: ip_def is_digit_zero list_all_iff)
  have 2: "ip \<noteq> []" using D(2) by (simp add: ip_def)
  have 3: "1 < length ip \<longrightarrow> hd ip \<noteq> CHR ''0''" using D(2,3) by (simp add: ip_def)
  have 4: "list_all is_digit ''0''" "''0'' \<noteq> []" by (simp_all add: is_digit_zero)
  have 5: "\<not> 2 ^ 1024 \<le> fl (of_nat (digits_val (ip @ ''0'')) / 10 ^ length ''0'')"
    unfolding v by (rule bound)
  have "parse_unsigned (ip @ ''.'' @ ''0'' @ rest)
      = Some ((True, fl (of_nat (digits_val (ip @ ''0'')) / 10 ^ length ''0'')), rest)"
    by (rule parse_unsigned_frac [OF 1 2 3 4 rest 5])
  then show ?thesis
    unfolding v using True by (simp add: ip_def z_def)
next
  case False
  define ip where "ip = take p D"
  define fp where "fp = drop p D"
  have D': "ip @ fp = D" by (simp add: ip_def fp_def)
  have lf: "length fp = length D - p" by (simp add: fp_def)
  have pz: "int p - int (length D) = - int (length D - p)" using False by simp
  have v: "of_nat (digits_val (ip @ fp)) / 10 ^ length fp
      = (of_nat (digits_val D) * 10 powi (int p - int (length D)) :: rat)"
    unfolding pz D' lf by (simp add: power_int_minus divide_inverse)
  have 1: "list_all is_digit ip" using D(1) unfolding ip_def list_all_iff by (meson in_set_takeD)
  have 2: "ip \<noteq> []" using D(2) p by (simp add: ip_def)
  have "hd ip = hd D" using p by (simp add: ip_def)
  then have 3: "1 < length ip \<longrightarrow> hd ip \<noteq> CHR ''0''" using D(3) by simp
  have 4: "list_all is_digit fp" using D(1) unfolding fp_def list_all_iff by (meson in_set_dropD)
  have 5: "fp \<noteq> []" using False by (simp add: fp_def)
  have 6: "\<not> 2 ^ 1024 \<le> fl (of_nat (digits_val (ip @ fp)) / 10 ^ length fp)"
    unfolding v by (rule bound)
  have "parse_unsigned (ip @ ''.'' @ fp @ rest)
      = Some ((True, fl (of_nat (digits_val (ip @ fp)) / 10 ^ length fp)), rest)"
    by (rule parse_unsigned_frac [OF 1 2 3 4 5 rest 6])
  then show ?thesis
    unfolding v using False by (simp add: ip_def fp_def)
qed

lemma float_repr_parse:
  assumes x: "1 \<le> x" "x \<le> 5000" and ex: "\<exists>n\<in>set [1..<18]. fl (round_sig x n) = x"
    and rest: "rest = [] \<or> (\<not> is_digit (hd rest) \<and> \<not> starts_exponent rest)"
  shows "parse_unsigned (float_repr x @ rest) = Some ((True, x), rest)"
    and "float_repr x \<noteq> []" and "is_digit (hd (float_repr x))"
proof -
  define n where "n = shortest_digits x"
  define M where "M = sig_mantissa x n"
  define ds where "ds = str_nat M"
  define D where "D = strip_zeros ds"
  define d where "d = nat (dexp10 x)"
  define p where "p = d + 1 + length ds - n"
  note sd = shortest_digits_ok [OF ex, folded n_def]
  note mb = sig_mantissa_bounds [OF x(1) sd(2), folded M_def]
  have M0: "0 < M"
  proof -
    have "(0::nat) < 10 ^ (n - 1)" by simp
    then show ?thesis using mb(1) by linarith
  qed
  have L1: "n - 1 < length ds" unfolding ds_def by (rule length_str_nat_gt [OF mb(1)])
  have "M < 10 ^ (n + 1)"
  proof -
    have "(10::nat) ^ n < 10 ^ (n + 1)" by simp
    then show ?thesis using mb(2) by linarith
  qed
  then have L2: "length ds \<le> n + 1" unfolding ds_def by (rule length_str_nat_le) simp
  have d3: "d \<le> 3" unfolding d_def by (rule dexp10_le_3 [OF x])
  have dd: "dexp10 x = int d" using dexp10_bounds(1) [OF x(1)] by (simp add: d_def)
  have p0: "0 < p" and p16: "p \<le> 16" using L1 L2 d3 sd(2) by (simp_all add: p_def)
  have ip: "dexp10 x + 1 + int (length ds) - int n = int p"
    using L1 sd(2) by (simp add: p_def dd)
  have dsne: "ds \<noteq> []" by (simp add: ds_def str_nat_nonempty)
  from strip_zeros_eq [OF dsne] obtain z where z: "ds = D @ replicate z CHR ''0''" and Dne: "D \<noteq> []"
    unfolding D_def by blast
  have "list_all is_digit ds" unfolding ds_def by (rule str_nat_digits)
  then have Dd: "list_all is_digit D" by (subst (asm) z) simp
  have "hd ds \<noteq> CHR ''0''" unfolding ds_def by (rule hd_str_nat [OF M0])
  then have Dh: "hd D \<noteq> CHR ''0''" using Dne by (subst (asm) z) simp
  have fd: "float_digits x = (D, int p)"
    by (simp add: float_digits_def Let_def n_def [symmetric] M_def [symmetric] ds_def [symmetric]
        D_def [symmetric] ip)
  have x0: "x \<noteq> 0" "0 < x" using x(1) by simp_all
  have fr: "float_repr x = (if int (length D) \<le> int p then D @ replicate (p - length D) CHR ''0'' @ ''.0''
             else take p D @ ''.'' @ drop p D)"
    using p0 p16 x0 by (simp add: float_repr_def float_repr_pos_def fd)
  have Mv: "M = digits_val D * 10 ^ z"
  proof -
    have "M = digits_val ds" by (simp add: ds_def digits_val_str_nat)
    also have "\<dots> = digits_val D * 10 ^ z" by (subst z) (rule digits_val_replicate_zero)
    finally show ?thesis .
  qed
  have len: "length ds = length D + z" by (subst z) simp
  have e: "int p - int (length D) = int (d + z) - int (n - 1)"
    using L1 sd(2) by (simp add: p_def len)
  have val: "of_nat (digits_val D) * 10 powi (int p - int (length D)) = round_sig x n"
    unfolding e powi_diff_nat round_sig_eq [OF x(1) sd(2)] M_def [symmetric] d_def [symmetric] Mv
    by (simp add: power_add)
  have fv: "fl (of_nat (digits_val D) * 10 powi (int p - int (length D))) = x"
    unfolding val by (rule sd(1))
  have "x < 2 ^ 13" using x(2) by simp
  also have "(2::rat) ^ 13 \<le> 2 ^ 1024" by (rule power_increasing) simp_all
  finally have "\<not> 2 ^ 1024 \<le> x" by (simp only: not_le)
  then have bound: "\<not> 2 ^ 1024 \<le> fl (of_nat (digits_val D) * 10 powi (int p - int (length D)))"
    unfolding fv .
  show "parse_unsigned (float_repr x @ rest) = Some ((True, x), rest)"
    using fixed_text_parse [OF Dd Dne Dh p0 rest bound] unfolding fv fr .
  have hdD: "is_digit (hd D)" using Dd Dne by (cases D) simp_all
  show "float_repr x \<noteq> []" unfolding fr using Dne p0 by simp
  show "is_digit (hd (float_repr x))" unfolding fr using Dne p0 hdD by simp
qed

section \<open>Reading back the text of a value\<close>

lemma skip_ws_append: "list_all is_ws ws \<Longrightarrow> skip_ws (ws @ s) = skip_ws s"
  by (simp add: skip_ws_def list_all_iff dropWhile_append2)

lemma skip_ws_Cons: "\<not> is_ws c \<Longrightarrow> skip_ws (c # s) = c # s"
  by (simp add: skip_ws_def)

lemma skip_ws_start: "list_all is_ws ws \<Longrightarrow> \<not> is_ws c \<Longrightarrow> skip_ws (ws @ c # s) = c # s"
  by (simp add: skip_ws_append skip_ws_Cons)

lemma is_digit_plain:
  assumes "is_digit c"
  shows "\<not> is_ws c" "c \<noteq> CHR ''[''" "c \<noteq> CHR ''{''" "c \<noteq> CHR 0x22" "c \<noteq> CHR ''-''"
    "c \<noteq> CHR '']''" "c \<noteq> CHR ''}''" "c \<noteq> CHR '',''" "is_plain_char c"
  using assms by (auto simp: is_digit_def is_ws_def is_plain_char_def)

lemma number_end_iff:
  "number_end rest = (rest = [] \<or> (\<not> is_digit (hd rest) \<and> hd rest \<noteq> CHR ''.'' \<and> \<not> starts_exponent rest))"
  by (cases rest) (auto simp: number_end_def starts_exponent_def)

lemma number_end_simps [simp]:
  "number_end []" "number_end (CHR '','' # s)" "number_end (CHR '']'' # s)" "number_end (CHR ''}'' # s)"
  "number_end (CHR 0x0A # s)" "number_end (CHR '' '' # s)"
  by (simp_all add: number_end_def is_digit_def)

lemma parse_unsigned_nat:
  assumes "number_end rest"
  shows "parse_unsigned (str_nat n @ rest) = Some ((False, of_nat n), rest)"
proof -
  have r: "rest = [] \<or> (\<not> is_digit (hd rest) \<and> hd rest \<noteq> CHR ''.'' \<and> \<not> starts_exponent rest)"
    using assms by (simp only: number_end_iff)
  have nd: "rest = [] \<or> \<not> is_digit (hd rest)" using r by auto
  note sp = span_digits [OF str_nat_digits nd, of n]
  have e: "parse_unsigned (str_nat n @ rest) =
     (if str_nat n = [] \<or> (1 < length (str_nat n) \<and> hd (str_nat n) = CHR ''0'') then None
         else (case rest of
                 [] \<Rightarrow> Some ((False, of_nat (digits_val (str_nat n))), rest)
               | c # r \<Rightarrow>
                   if c = CHR ''.'' then
                     (let fp = takeWhile is_digit r; s3 = dropWhile is_digit r;
                          x = fl (of_nat (digits_val (str_nat n @ fp)) / 10 ^ length fp)
                      in if fp = [] \<or> starts_exponent s3 \<or> 2 ^ 1024 \<le> x then None
                         else Some ((True, x), s3))
                   else if starts_exponent rest then None
                   else Some ((False, of_nat (digits_val (str_nat n))), rest)))"
    unfolding parse_unsigned_def sp Let_def ..
  have a: "str_nat n \<noteq> []" "\<not> (1 < length (str_nat n) \<and> hd (str_nat n) = CHR ''0'')"
    using str_nat_nonempty [of n] str_nat_no_leading_zero [of n] by auto
  show ?thesis
  proof (cases rest)
    case Nil
    then show ?thesis
      unfolding e using a by (simp add: digits_val_str_nat)
  next
    case (Cons c t)
    then have "c \<noteq> CHR ''.''" "\<not> starts_exponent (c # t)" using r by auto
    then show ?thesis
      unfolding e using a Cons by (simp add: digits_val_str_nat del: power_numeral)
  qed
qed

lemma hd_str_nat_digit: "is_digit (hd (str_nat n))"
  using str_nat_digits [of n] str_nat_nonempty [of n] by (cases "str_nat n") simp_all

lemma parse_number_digit:
  "is_digit (hd s) \<Longrightarrow> s \<noteq> [] \<Longrightarrow>
   parse_number s = (case parse_unsigned s of None \<Rightarrow> None
      | Some ((is_float, x), t) \<Rightarrow> if is_float then Some (PFloat x, t) else Some (PInt \<lfloor>x\<rfloor>, t))"
  by (cases s) (auto simp: parse_number_def dest: is_digit_plain(5))

lemma parse_value_number:
  assumes "list_all is_ws ws" "is_digit (hd s)" "s \<noteq> []"
  shows "parse_value (Suc n) (ws @ s) = parse_number s"
proof -
  obtain c r where s: "s = c # r" using assms(3) by (cases s) auto
  then have c: "is_digit c" using assms(2) by simp
  note p = is_digit_plain [OF c]
  have "skip_ws (ws @ s) = c # r" unfolding s by (rule skip_ws_start [OF assms(1) p(1)])
  then show ?thesis using p c by (simp add: s)
qed

lemma parse_value_int:
  assumes "list_all is_ws ws" "number_end rest" "0 \<le> i"
  shows "parse_value (Suc n) (ws @ dumps (PInt i) @ rest) = Some (PInt i, rest)"
proof -
  have d: "dumps (PInt i) = str_nat (nat i)" using assms(3) by (simp add: str_int_def)
  have h: "is_digit (hd (str_nat (nat i) @ rest))" "str_nat (nat i) @ rest \<noteq> []"
    using hd_str_nat_digit [of "nat i"] str_nat_nonempty [of "nat i"] by simp_all
  show ?thesis
    unfolding d parse_value_number [OF assms(1) h] parse_number_digit [OF h]
      parse_unsigned_nat [OF assms(2)]
    using assms(3) by simp
qed

lemma parse_value_float:
  assumes "list_all is_ws ws" "number_end rest" "plain_value (PFloat x)"
  shows "parse_value (Suc n) (ws @ dumps (PFloat x) @ rest) = Some (PFloat x, rest)"
proof -
  have x: "1 \<le> x" "x \<le> 5000" "\<exists>n\<in>set [1..<18]. fl (round_sig x n) = x"
    using assms(3) by (simp_all add: list_ex_iff)
  have r: "rest = [] \<or> (\<not> is_digit (hd rest) \<and> \<not> starts_exponent rest)"
    using assms(2) by (auto simp only: number_end_iff)
  note f = float_repr_parse [OF x r]
  have h: "is_digit (hd (float_repr x @ rest))" "float_repr x @ rest \<noteq> []"
    using f(2,3) by simp_all
  show ?thesis
    unfolding dumps.simps parse_value_number [OF assms(1) h] parse_number_digit [OF h] f(1)
    by simp
qed

lemma escape_plain: "list_all is_plain_char s \<Longrightarrow> concat (map escape_char s) = s"
proof (induction s)
  case Nil
  then show ?case by simp
next
  case (Cons c s)
  have "escape_char c = [c]"
    using Cons.prems by (auto simp: escape_char_def is_plain_char_def)
  then show ?case using Cons by simp
qed

lemma dumps_str_plain: "list_all is_plain_char s \<Longrightarrow> dumps_str s = CHR 0x22 # s @ [CHR 0x22]"
  by (simp add: dumps_str_def escape_plain)

lemma parse_string_body_plain:
  assumes "list_all is_plain_char s"
  shows "parse_string_body (s @ CHR 0x22 # rest) = Some (s, rest)"
proof -
  have q: "\<not> is_plain_char CHR 0x22" by (simp add: is_plain_char_def)
  have a: "\<forall>c\<in>set s. is_plain_char c" using assms by (simp add: list_all_iff)
  have "dropWhile is_plain_char (s @ CHR 0x22 # rest) = CHR 0x22 # rest"
    using a q by (simp add: dropWhile_append2)
  moreover have "takeWhile is_plain_char (s @ CHR 0x22 # rest) = s"
    using a q by (simp add: takeWhile_append2)
  ultimately show ?thesis by (simp add: parse_string_body_def)
qed

lemma parse_value_str:
  assumes "list_all is_ws ws" "list_all is_plain_char s"
  shows "parse_value (Suc n) (ws @ dumps (PStr s) @ rest) = Some (PStr s, rest)"
proof -
  have w: "\<not> is_ws CHR 0x22" by (simp add: is_ws_def)
  have "skip_ws (ws @ CHR 0x22 # s @ CHR 0x22 # rest) = CHR 0x22 # s @ CHR 0x22 # rest"
    by (rule skip_ws_start [OF assms(1) w])
  then show ?thesis
    by (simp add: dumps_str_plain [OF assms(2)] parse_string_body_plain [OF assms(2)])
qed

lemma parse_value_literal:
  assumes "list_all is_ws ws"
  shows "parse_value (Suc n) (ws @ dumps PNone @ rest) = Some (PNone, rest)"
    "parse_value (Suc n) (ws @ dumps (PBool b) @ rest) = Some (PBool b, rest)"
proof -
  have w: "\<not> is_ws CHR ''n''" "\<not> is_ws CHR ''t''" "\<not> is_ws CHR ''f''" by (simp_all add: is_ws_def)
  have 1: "skip_ws (ws @ CHR ''n'' # ''ull'' @ rest) = CHR ''n'' # ''ull'' @ rest"
    by (rule skip_ws_start [OF assms w(1)])
  have 2: "skip_ws (ws @ CHR ''t'' # ''rue'' @ rest) = CHR ''t'' # ''rue'' @ rest"
    by (rule skip_ws_start [OF assms w(2)])
  have 3: "skip_ws (ws @ CHR ''f'' # ''alse'' @ rest) = CHR ''f'' # ''alse'' @ rest"
    by (rule skip_ws_start [OF assms w(3)])
  show "parse_value (Suc n) (ws @ dumps PNone @ rest) = Some (PNone, rest)"
    using 1 by (simp add: parse_literal_def is_digit_def)
  show "parse_value (Suc n) (ws @ dumps (PBool b) @ rest) = Some (PBool b, rest)"
    using 2 3 by (cases b) (simp_all add: parse_literal_def is_digit_def)
qed

lemma parse_value_open_list:
  assumes "list_all is_ws ws"
  shows "parse_value (Suc n) (ws @ CHR ''['' # r)
       = (case skip_ws r of [] \<Rightarrow> None
          | c' # r' \<Rightarrow> if c' = CHR '']'' then Some (PList [], r')
              else (case parse_elems n r of None \<Rightarrow> None | Some (vs, t) \<Rightarrow> Some (PList vs, t)))"
proof -
  have w: "\<not> is_ws CHR ''[''" by (simp add: is_ws_def)
  have "skip_ws (ws @ CHR ''['' # r) = CHR ''['' # r"
    by (rule skip_ws_start [OF assms w])
  then show ?thesis by simp
qed

lemma parse_value_open_dict:
  assumes "list_all is_ws ws"
  shows "parse_value (Suc n) (ws @ CHR ''{'' # r)
       = (case skip_ws r of [] \<Rightarrow> None
          | c' # r' \<Rightarrow> if c' = CHR ''}'' then Some (PDict [], r')
              else (case parse_members n r of None \<Rightarrow> None
                    | Some (kvs, t) \<Rightarrow> if distinct (map fst kvs) then Some (PDict kvs, t) else None))"
proof -
  have w: "\<not> is_ws CHR ''{''" by (simp add: is_ws_def)
  have "skip_ws (ws @ CHR ''{'' # r) = CHR ''{'' # r"
    by (rule skip_ws_start [OF assms w])
  then show ?thesis by simp
qed

lemma dumps_start:
  assumes "plain_value v"
  shows "\<exists>c t. dumps v = c # t \<and> \<not> is_ws c \<and> c \<noteq> CHR '']'' \<and> c \<noteq> CHR ''}''"
proof (cases v)
  case PNone
  then show ?thesis by (simp add: is_ws_def)
next
  case (PBool b)
  then show ?thesis by (cases b) (simp_all add: is_ws_def)
next
  case (PInt i)
  then have d: "dumps v = str_nat (nat i)" using assms by (simp add: str_int_def)
  obtain c t where s: "str_nat (nat i) = c # t" using str_nat_nonempty [of "nat i"] by (cases "str_nat (nat i)") auto
  then have "is_digit c" using hd_str_nat_digit [of "nat i"] by simp
  from is_digit_plain [OF this] show ?thesis unfolding d s by simp
next
  case (PFloat x)
  then have x: "1 \<le> x" "x \<le> 5000" "\<exists>n\<in>set [1..<18]. fl (round_sig x n) = x"
    using assms by (simp_all add: list_ex_iff)
  have r: "[] = [] \<or> (\<not> is_digit (hd []) \<and> \<not> starts_exponent [])" by simp
  note f = float_repr_parse(2,3) [OF x r]
  obtain c t where s: "float_repr x = c # t" using f(1) by (cases "float_repr x") auto
  then have "is_digit c" using f(2) by simp
  from is_digit_plain [OF this] show ?thesis unfolding PFloat dumps.simps s by simp
next
  case (PStr s)
  then show ?thesis by (simp add: dumps_str_def is_ws_def)
next
  case (PList vs)
  then show ?thesis by (simp add: is_ws_def)
next
  case (PDict d)
  then show ?thesis by (simp add: is_ws_def)
qed

lemma join_Cons2: "xs \<noteq> [] \<Longrightarrow> join sp (x # xs) = x @ sp @ join sp xs"
  by (cases xs) simp_all

lemma parse_elems_join:
  assumes "vs \<noteq> []"
    and "\<And>v ws rest n. v \<in> set vs \<Longrightarrow> list_all is_ws ws \<Longrightarrow> number_end rest \<Longrightarrow> length (dumps v) \<le> n
           \<Longrightarrow> parse_value n (ws @ dumps v @ rest) = Some (v, rest)"
    and "list_all is_ws ws" "length (join '', '' (map dumps vs)) < n"
  shows "parse_elems n (ws @ join '', '' (map dumps vs) @ CHR '']'' # rest) = Some (vs, rest)"
  using assms
proof (induction vs arbitrary: ws n rule: list_nonempty_induct)
  case (single x)
  from single.prems(3) obtain m where n: "n = Suc m" and m: "length (dumps x) \<le> m"
    by (cases n) simp_all
  have pv: "parse_value m (ws @ dumps x @ CHR '']'' # rest) = Some (x, CHR '']'' # rest)"
    by (rule single.prems(1)) (use single.prems(2) m in simp_all)
  have sk: "skip_ws (CHR '']'' # rest) = CHR '']'' # rest"
    by (rule skip_ws_Cons) (simp add: is_ws_def)
  show ?case
    unfolding n by (simp add: pv sk)
next
  case (cons x xs)
  from cons.prems(3) obtain m where n: "n = Suc m"
    and m: "length (dumps x) + 2 + length (join '', '' (map dumps xs)) \<le> m"
    using cons.hyps by (cases n) (simp_all add: join_Cons2)
  let ?r = "CHR '' '' # join '', '' (map dumps xs) @ CHR '']'' # rest"
  have t: "ws @ join '', '' (map dumps (x # xs)) @ CHR '']'' # rest = ws @ dumps x @ CHR '','' # ?r"
    using cons.hyps by (simp add: join_Cons2)
  have pv: "parse_value m (ws @ dumps x @ CHR '','' # ?r) = Some (x, CHR '','' # ?r)"
    by (rule cons.prems(1)) (use cons.prems(2) m in simp_all)
  have sk: "skip_ws (CHR '','' # ?r) = CHR '','' # ?r"
    by (rule skip_ws_Cons) (simp add: is_ws_def)
  have ws': "list_all is_ws '' ''" by (simp add: is_ws_def)
  have "parse_elems m ('' '' @ join '', '' (map dumps xs) @ CHR '']'' # rest) = Some (xs, rest)"
  proof (rule cons.IH [OF _ ws'])
    fix v ws rest n
    assume "v \<in> set xs" "list_all is_ws ws" "number_end rest" "length (dumps v) \<le> n"
    then show "parse_value n (ws @ dumps v @ rest) = Some (v, rest)"
      by (intro cons.prems(1)) simp_all
  next
    show "length (join '', '' (map dumps xs)) < m" using m by simp
  qed
  then have pe: "parse_elems m ?r = Some (xs, rest)" by simp
  show ?case
    unfolding t n by (simp add: pv sk pe)
qed

lemma parse_members_join:
  assumes "d \<noteq> []"
    and "\<And>kv ws rest n. kv \<in> set d \<Longrightarrow> list_all is_ws ws \<Longrightarrow> number_end rest \<Longrightarrow> length (dumps (snd kv)) \<le> n
           \<Longrightarrow> parse_value n (ws @ dumps (snd kv) @ rest) = Some (snd kv, rest)"
    and "\<forall>kv\<in>set d. list_all is_plain_char (fst kv)"
    and "list_all is_ws ws"
    and "length (join '', '' (map (\<lambda>kv. dumps_str (fst kv) @ '': '' @ dumps (snd kv)) d)) < n"
  shows "parse_members n (ws @ join '', '' (map (\<lambda>kv. dumps_str (fst kv) @ '': '' @ dumps (snd kv)) d) @ CHR ''}'' # rest)
       = Some (d, rest)"
  using assms
proof (induction d arbitrary: ws n rule: list_nonempty_induct)
  case (single kv)
  obtain k v where kv: "kv = (k, v)" by (cases kv)
  have pk: "list_all is_plain_char k" using single.prems(2) kv by simp
  from single.prems(4) obtain m where n: "n = Suc m" and m: "length (dumps v) \<le> m"
    by (cases n) (simp_all add: kv)
  let ?r1 = "CHR '':'' # CHR '' '' # dumps v @ CHR ''}'' # rest"
  have t: "ws @ join '', '' (map (\<lambda>kv. dumps_str (fst kv) @ '': '' @ dumps (snd kv)) [kv]) @ CHR ''}'' # rest
      = ws @ CHR 0x22 # k @ CHR 0x22 # ?r1"
    by (simp add: kv dumps_str_plain [OF pk])
  have s0: "skip_ws (ws @ CHR 0x22 # k @ CHR 0x22 # ?r1) = CHR 0x22 # k @ CHR 0x22 # ?r1"
    by (rule skip_ws_start [OF single.prems(3)]) (simp add: is_ws_def)
  have ps: "parse_string_body (k @ CHR 0x22 # ?r1) = Some (k, ?r1)"
    by (rule parse_string_body_plain [OF pk])
  have s1: "skip_ws ?r1 = ?r1"
    by (rule skip_ws_Cons) (simp add: is_ws_def)
  have "parse_value m ('' '' @ dumps (snd kv) @ CHR ''}'' # rest) = Some (snd kv, CHR ''}'' # rest)"
    by (rule single.prems(1)) (use m in \<open>simp_all add: kv is_ws_def\<close>)
  then have pv: "parse_value m (CHR '' '' # dumps v @ CHR ''}'' # rest) = Some (v, CHR ''}'' # rest)"
    by (simp add: kv)
  have s3: "skip_ws (CHR ''}'' # rest) = CHR ''}'' # rest"
    by (rule skip_ws_Cons) (simp add: is_ws_def)
  show ?case
    unfolding t n by (simp add: s0 ps s1 pv s3 kv)
next
  case (cons kv d)
  obtain k v where kv: "kv = (k, v)" by (cases kv)
  have pk: "list_all is_plain_char k" using cons.prems(2) kv by simp
  define J where "J = join '', '' (map (\<lambda>kv. dumps_str (fst kv) @ '': '' @ dumps (snd kv)) d)"
  from cons.prems(4) obtain m where n: "n = Suc m"
    and m: "length (dumps v) + length J < m"
    using cons.hyps unfolding J_def by (cases n) (simp_all add: join_Cons2 kv)
  let ?r4 = "CHR '' '' # J @ CHR ''}'' # rest"
  let ?r1 = "CHR '':'' # CHR '' '' # dumps v @ CHR '','' # ?r4"
  have t: "ws @ join '', '' (map (\<lambda>kv. dumps_str (fst kv) @ '': '' @ dumps (snd kv)) (kv # d)) @ CHR ''}'' # rest
      = ws @ CHR 0x22 # k @ CHR 0x22 # ?r1"
    using cons.hyps unfolding J_def by (simp add: join_Cons2 kv dumps_str_plain [OF pk])
  have s0: "skip_ws (ws @ CHR 0x22 # k @ CHR 0x22 # ?r1) = CHR 0x22 # k @ CHR 0x22 # ?r1"
    by (rule skip_ws_start [OF cons.prems(3)]) (simp add: is_ws_def)
  have ps: "parse_string_body (k @ CHR 0x22 # ?r1) = Some (k, ?r1)"
    by (rule parse_string_body_plain [OF pk])
  have s1: "skip_ws ?r1 = ?r1"
    by (rule skip_ws_Cons) (simp add: is_ws_def)
  have "parse_value m ('' '' @ dumps (snd kv) @ CHR '','' # ?r4) = Some (snd kv, CHR '','' # ?r4)"
    by (rule cons.prems(1)) (use m in \<open>simp_all add: kv is_ws_def\<close>)
  then have pv: "parse_value m (CHR '' '' # dumps v @ CHR '','' # ?r4) = Some (v, CHR '','' # ?r4)"
    by (simp add: kv)
  have s3: "skip_ws (CHR '','' # ?r4) = CHR '','' # ?r4"
    by (rule skip_ws_Cons) (simp add: is_ws_def)
  have ws': "list_all is_ws '' ''" by (simp add: is_ws_def)
  have "parse_members m ('' '' @ J @ CHR ''}'' # rest) = Some (d, rest)"
    unfolding J_def
  proof (rule cons.IH [OF _ _ ws'])
    fix kv ws rest n
    assume "kv \<in> set d" "list_all is_ws ws" "number_end rest" "length (dumps (snd kv)) \<le> n"
    then show "parse_value n (ws @ dumps (snd kv) @ rest) = Some (snd kv, rest)"
      by (intro cons.prems(1)) simp_all
  next
    show "\<forall>kv\<in>set d. list_all is_plain_char (fst kv)" using cons.prems(2) by simp
  next
    show "length (join '', '' (map (\<lambda>kv. dumps_str (fst kv) @ '': '' @ dumps (snd kv)) d)) < m"
      using m by (simp add: J_def)
  qed
  then have pm: "parse_members m ?r4 = Some (d, rest)" by simp
  show ?case
    unfolding t n by (simp add: s0 ps s1 pv s3 pm kv)
qed

lemma parse_value_dumps:
  "plain_value v \<Longrightarrow> list_all is_ws ws \<Longrightarrow> number_end rest \<Longrightarrow> length (dumps v) \<le> n
   \<Longrightarrow> parse_value n (ws @ dumps v @ rest) = Some (v, rest)"
proof (induction v arbitrary: ws rest n)
  case PNone
  then obtain m where "n = Suc m" by (cases n) simp_all
  then show ?case using parse_value_literal(1) [OF PNone(2)] by simp
next
  case (PBool b)
  then obtain m where "n = Suc m" by (cases n; cases b) simp_all
  then show ?case using parse_value_literal(2) [OF PBool(2)] by simp
next
  case (PInt i)
  have "dumps (PInt i) \<noteq> []" using str_nat_nonempty by (simp add: str_int_def)
  then obtain m where "n = Suc m" using PInt(4) by (cases n) simp_all
  then show ?case using parse_value_int [OF PInt(2,3)] PInt(1) by simp
next
  case (PFloat x)
  obtain c t where "dumps (PFloat x) = c # t" using dumps_start [OF PFloat(1)] by blast
  then obtain m where "n = Suc m" using PFloat(4) by (cases n) simp_all
  then show ?case using parse_value_float [OF PFloat(2,3,1)] by simp
next
  case (PStr s)
  have "dumps (PStr s) \<noteq> []" by (simp add: dumps_str_def)
  then obtain m where "n = Suc m" using PStr(4) by (cases n) simp_all
  then show ?case using parse_value_str [OF PStr(2)] PStr(1) by simp
next
  case (PList vs)
  define J where "J = join '', '' (map dumps vs)"
  have d: "dumps (PList vs) = CHR ''['' # J @ CHR '']'' # []" by (simp add: J_def)
  from PList(5) obtain m where n: "n = Suc m" and m: "length J < m"
    unfolding d by (cases n) simp_all
  have t: "ws @ dumps (PList vs) @ rest = ws @ CHR ''['' # J @ CHR '']'' # rest"
    unfolding d by simp
  show ?case
  proof (cases "vs = []")
    case True
    then have J: "J = []" by (simp add: J_def)
    have sk: "skip_ws (CHR '']'' # rest) = CHR '']'' # rest"
      by (rule skip_ws_Cons) (simp add: is_ws_def)
    show ?thesis
      unfolding t n parse_value_open_list [OF PList(3)] J using True by (simp add: sk)
  next
    case False
    then obtain v vs' where vs: "vs = v # vs'" by (cases vs) auto
    have pv: "plain_value v" using PList(2) vs by simp
    from dumps_start [OF pv] obtain c u where c: "dumps v = c # u" "\<not> is_ws c" "c \<noteq> CHR '']''"
      by blast
    have "\<exists>u'. J = c # u'"
      unfolding J_def vs using c(1) by (cases vs') simp_all
    then obtain u' where Jc: "J = c # u'" by blast
    have sk: "skip_ws (J @ CHR '']'' # rest) = c # u' @ CHR '']'' # rest"
      unfolding Jc using skip_ws_Cons [OF c(2)] by simp
    have "parse_elems m ([] @ join '', '' (map dumps vs) @ CHR '']'' # rest) = Some (vs, rest)"
    proof (rule parse_elems_join [OF False])
      fix v ws rest n
      assume "v \<in> set vs" "list_all is_ws ws" "number_end rest" "length (dumps v) \<le> n"
      then show "parse_value n (ws @ dumps v @ rest) = Some (v, rest)"
        using PList(2) by (intro PList(1)) simp_all
    next
      show "list_all is_ws []" by simp
      show "length (join '', '' (map dumps vs)) < m" using m by (simp add: J_def)
    qed
    then have pe: "parse_elems m (J @ CHR '']'' # rest) = Some (vs, rest)"
      by (simp add: J_def)
    show ?thesis
      unfolding t n parse_value_open_list [OF PList(3)] sk using c(3) by (simp add: pe)
  qed
next
  case (PDict d)
  define J where "J = join '', '' (map (\<lambda>kv. dumps_str (fst kv) @ '': '' @ dumps (snd kv)) d)"
  have dd: "dumps (PDict d) = CHR ''{'' # J @ CHR ''}'' # []" by (simp add: J_def)
  from PDict(5) obtain m where n: "n = Suc m" and m: "length J < m"
    unfolding dd by (cases n) simp_all
  have t: "ws @ dumps (PDict d) @ rest = ws @ CHR ''{'' # J @ CHR ''}'' # rest"
    unfolding dd by simp
  have dist: "distinct (map fst d)" and keys: "\<forall>kv\<in>set d. list_all is_plain_char (fst kv)"
    and vals: "\<forall>kv\<in>set d. plain_value (snd kv)"
    using PDict(2) by simp_all
  show ?case
  proof (cases "d = []")
    case True
    then have J: "J = []" by (simp add: J_def)
    have sk: "skip_ws (CHR ''}'' # rest) = CHR ''}'' # rest"
      by (rule skip_ws_Cons) (simp add: is_ws_def)
    show ?thesis
      unfolding t n parse_value_open_dict [OF PDict(3)] J using True by (simp add: sk)
  next
    case False
    then obtain kv d' where d: "d = kv # d'" by (cases d) auto
    have "\<exists>u'. J = CHR 0x22 # u'"
      unfolding J_def d by (cases d') (simp_all add: dumps_str_def)
    then obtain u' where Jc: "J = CHR 0x22 # u'" by blast
    have sk: "skip_ws (J @ CHR ''}'' # rest) = CHR 0x22 # u' @ CHR ''}'' # rest"
      unfolding Jc by (simp add: skip_ws_Cons is_ws_def)
    have "parse_members m ([] @ join '', '' (map (\<lambda>kv. dumps_str (fst kv) @ '': '' @ dumps (snd kv)) d)
            @ CHR ''}'' # rest) = Some (d, rest)"
    proof (rule parse_members_join [OF False _ keys])
      fix kv ws rest n
      assume a: "kv \<in> set d" "list_all is_ws ws" "number_end rest" "length (dumps (snd kv)) \<le> n"
      have "snd kv \<in> Basic_BNFs.snds kv" by (cases kv) simp
      then show "parse_value n (ws @ dumps (snd kv) @ rest) = Some (snd kv, rest)"
        using a vals by (intro PDict(1) [of kv]) simp_all
    next
      show "list_all is_ws []" by simp
      show "length (join '', '' (map (\<lambda>kv. dumps_str (fst kv) @ '': '' @ dumps (snd kv)) d)) < m"
        using m by (simp add: J_def)
    qed
    then have pm: "parse_members m (J @ CHR ''}'' # rest) = Some (d, rest)"
      by (simp add: J_def)
    show ?thesis
      unfolding t n parse_value_open_dict [OF PDict(3)] sk by (simp add: pm dist)
  qed
qed

lemma parse_elems_lines:
  assumes "ps \<noteq> []" "\<forall>p\<in>set ps. plain_value p"
    and "length (join [CHR '','', CHR 0x0A] (map dumps ps)) < n"
  shows "parse_elems n (CHR 0x0A # join [CHR '','', CHR 0x0A] (map dumps ps) @ CHR 0x0A # CHR '']'' # rest)
       = Some (ps, rest)"
  using assms
proof (induction ps arbitrary: n rule: list_nonempty_induct)
  case (single p)
  from single.prems(2) obtain m where n: "n = Suc m" and m: "length (dumps p) \<le> m"
    by (cases n) simp_all
  have ws: "list_all is_ws [CHR 0x0A]" by (simp add: is_ws_def)
  have "parse_value m ([CHR 0x0A] @ dumps p @ CHR 0x0A # CHR '']'' # rest) = Some (p, CHR 0x0A # CHR '']'' # rest)"
    by (rule parse_value_dumps) (use single.prems(1) ws m in simp_all)
  then have pv: "parse_value m (CHR 0x0A # dumps p @ CHR 0x0A # CHR '']'' # rest)
      = Some (p, CHR 0x0A # CHR '']'' # rest)"
    by simp
  have sk: "skip_ws (CHR 0x0A # CHR '']'' # rest) = CHR '']'' # rest"
    by (simp add: skip_ws_def is_ws_def)
  show ?case
    unfolding n by (simp add: pv sk)
next
  case (cons p ps)
  define J where "J = join [CHR '','', CHR 0x0A] (map dumps ps)"
  from cons.prems(2) obtain m where n: "n = Suc m" and m: "length (dumps p) + length J < m"
    using cons.hyps unfolding J_def by (cases n) (simp_all add: join_Cons2)
  let ?r = "CHR 0x0A # J @ CHR 0x0A # CHR '']'' # rest"
  have t: "CHR 0x0A # join [CHR '','', CHR 0x0A] (map dumps (p # ps)) @ CHR 0x0A # CHR '']'' # rest
      = CHR 0x0A # dumps p @ CHR '','' # ?r"
    using cons.hyps unfolding J_def by (simp add: join_Cons2)
  have ws: "list_all is_ws [CHR 0x0A]" by (simp add: is_ws_def)
  have "parse_value m ([CHR 0x0A] @ dumps p @ CHR '','' # ?r) = Some (p, CHR '','' # ?r)"
    by (rule parse_value_dumps) (use cons.prems(1) ws m in simp_all)
  then have pv: "parse_value m (CHR 0x0A # dumps p @ CHR '','' # ?r) = Some (p, CHR '','' # ?r)"
    by simp
  have sk: "skip_ws (CHR '','' # ?r) = CHR '','' # ?r"
    by (rule skip_ws_Cons) (simp add: is_ws_def)
  have pe: "parse_elems m ?r = Some (ps, rest)"
    unfolding J_def by (rule cons.IH) (use cons.prems(1) m in \<open>simp_all add: J_def\<close>)
  show ?case
    unfolding t n by (simp add: pv sk pe)
qed

lemma parse_json_array_text:
  assumes "ps \<noteq> []" "\<forall>p\<in>set ps. plain_value p"
  shows "parse_json (array_text (map dumps ps)) = Some (PList ps)"
proof -
  define J where "J = join [CHR '','', CHR 0x0A] (map dumps ps)"
  let ?r = "CHR 0x0A # J @ CHR 0x0A # CHR '']'' # []"
  have t: "array_text (map dumps ps) = CHR ''['' # ?r"
    by (simp add: array_text_def J_def)
  have l: "length (array_text (map dumps ps)) = Suc (length J + 3)"
    unfolding t by simp
  obtain p ps' where ps: "ps = p # ps'" using assms(1) by (cases ps) auto
  have "plain_value p" using assms(2) ps by simp
  from dumps_start [OF this] obtain c u where c: "dumps p = c # u" "\<not> is_ws c" "c \<noteq> CHR '']''"
    by blast
  have "\<exists>u'. J = c # u'"
    unfolding J_def ps using c(1) by (cases ps') simp_all
  then obtain u' where Jc: "J = c # u'" by blast
  have sk: "skip_ws ?r = c # u' @ CHR 0x0A # CHR '']'' # []"
    unfolding Jc using c(2) by (simp add: skip_ws_def is_ws_def)
  have pe: "parse_elems (length J + 3) ?r = Some (ps, [])"
    unfolding J_def by (rule parse_elems_lines [OF assms]) simp
  have e: "list_all is_ws []" by simp
  have "parse_value (Suc (length J + 3)) ([] @ CHR ''['' # ?r) = Some (PList ps, [])"
    unfolding parse_value_open_list [OF e] sk using c(3) by (simp add: pe)
  then show ?thesis
    unfolding parse_json_def l unfolding t by (simp add: skip_ws_def)
qed

section \<open>The artifact read back\<close>

lemma str_nat_plain: "list_all is_plain_char (str_nat n)"
  using str_nat_digits [of n] by (auto simp: list_all_iff dest: is_digit_plain(9))

lemma vocabulary_plain:
  "\<forall>s\<in>set PHRASES. list_all is_plain_char s" "\<forall>s\<in>set COLORS. list_all is_plain_char s"
  by (simp_all add: PHRASES_def COLORS_def is_plain_char_def)

lemma product_plain:
  assumes "0 \<le> gid"
  shows "plain_value (fst (fst (generate_product_json gid g)))"
proof -
  from product_shape [of gid g] obtain name p r ram sto col v c g' where
    s: "generate_product_json gid g
       = ((PDict [(''name'', PStr name), (''price'', PFloat p), (''rating'', PFloat r),
                  (''attributs'', PList [PDict [(''k'', PStr ''RAM''), (''v'', PStr (str_nat ram @ ''GB''))],
                                         PDict [(''k'', PStr ''Storage''), (''v'', PStr (str_nat sto @ ''GB SSD''))],
                                         PDict [(''k'', PStr ''Color''), (''v'', PStr col)]]),
                  (''category_id'', PInt (int c)), (''vendor_id'', PInt (int v)),
                  (''product_id'', PInt gid)], v, c), g')"
    and nm: "name \<in> set PHRASES" and cl: "col \<in> set COLORS"
    and pm: "\<exists>m. 1000 \<le> m \<and> m \<le> 500000 \<and> p = fl (of_int m / 100)"
    and rm: "\<exists>m. 30 \<le> m \<and> m \<le> 50 \<and> r = fl (of_int m / 10)"
    by blast
  have n: "list_all is_plain_char name" using nm vocabulary_plain(1) by blast
  have c: "list_all is_plain_char col" using cl vocabulary_plain(2) by blast
  from pm obtain m where m: "1000 \<le> m" "m \<le> 500000" "p = fl (of_int m / 100)" by blast
  have "1 \<le> fl (of_int m / 10 ^ 2) \<and> fl (of_int m / 10 ^ 2) \<le> 5000
     \<and> (\<exists>n\<in>set [1..<18]. fl (round_sig (fl (of_int m / 10 ^ 2)) n) = fl (of_int m / 10 ^ 2))"
    by (rule repr_digits_exist [of 10 5000 2 m]) (use m in simp_all)
  then have p: "plain_value (PFloat p)"
    unfolding m(3) by (simp add: list_ex_iff)
  from rm obtain m' where m': "30 \<le> m'" "m' \<le> 50" "r = fl (of_int m' / 10)" by blast
  have "1 \<le> fl (of_int m' / 10 ^ 1) \<and> fl (of_int m' / 10 ^ 1) \<le> 5000
     \<and> (\<exists>n\<in>set [1..<18]. fl (round_sig (fl (of_int m' / 10 ^ 1)) n) = fl (of_int m' / 10 ^ 1))"
    by (rule repr_digits_exist [of 3 5 1 m']) (use m' in simp_all)
  then have r: "plain_value (PFloat r)"
    unfolding m'(3) by (simp add: list_ex_iff)
  have k: "list_all is_plain_char ''name''" "list_all is_plain_char ''price''"
    "list_all is_plain_char ''rating''" "list_all is_plain_char ''attributs''"
    "list_all is_plain_char ''category_id''" "list_all is_plain_char ''vendor_id''"
    "list_all is_plain_char ''product_id''" "list_all is_plain_char ''k''" "list_all is_plain_char ''v''"
    "list_all is_plain_char ''RAM''" "list_all is_plain_char ''Storage''" "list_all is_plain_char ''Color''"
    "list_all is_plain_char ''GB''" "list_all is_plain_char ''GB SSD''"
    by (simp_all add: is_plain_char_def)
  have a: "plain_value (PList [PDict [(''k'', PStr ''RAM''), (''v'', PStr (str_nat ram @ ''GB''))],
                                         PDict [(''k'', PStr ''Storage''), (''v'', PStr (str_nat sto @ ''GB SSD''))],
                                         PDict [(''k'', PStr ''Color''), (''v'', PStr col)]])"
    using k c str_nat_plain [of ram] str_nat_plain [of sto] by simp
  have "plain_value (PDict [(''name'', PStr name), (''price'', PFloat p), (''rating'', PFloat r),
                  (''attributs'', PList [PDict [(''k'', PStr ''RAM''), (''v'', PStr (str_nat ram @ ''GB''))],
                                         PDict [(''k'', PStr ''Storage''), (''v'', PStr (str_nat sto @ ''GB SSD''))],
                                         PDict [(''k'', PStr ''Color''), (''v'', PStr col)]]),
                  (''category_id'', PInt (int c)), (''vendor_id'', PInt (int v)),
                  (''product_id'', PInt gid)])"
    unfolding plain_value.simps(7) using k(1-7) n p r a assms
    by (simp del: plain_value.simps(4,6,7))
  then show ?thesis by (simp only: s fst_conv)
qed

lemma gen_seq_plain:
  assumes "0 \<le> st"
  shows "\<forall>r\<in>set (gen_seq st js g). plain_value (fst r)"
proof (induction js arbitrary: g)
  case Nil
  then show ?case by simp
next
  case (Cons i js)
  obtain r g' where r: "generate_product_json (st + int i) g = (r, g')"
    by (cases "generate_product_json (st + int i) g")
  have "plain_value (fst (fst (generate_product_json (st + int i) g)))"
    by (rule product_plain) (use assms in simp)
  then have "plain_value (fst r)" by (simp add: r)
  then show ?case using Cons.IH [of g'] by (simp add: r)
qed

lemma partition_products_plain:
  assumes "0 \<le> st"
  shows "partition_products st g \<noteq> []" "\<forall>p\<in>set (partition_products st g). plain_value p"
    "length (partition_products st g) = PRODUCTS_PER_FILE"
proof -
  show l: "length (partition_products st g) = PRODUCTS_PER_FILE"
    by (simp add: partition_products_def length_gen_seq)
  have "0 < PRODUCTS_PER_FILE" by (simp add: PRODUCTS_PER_FILE_def)
  then show "partition_products st g \<noteq> []" using l by (cases "partition_products st g") simp_all
  show "\<forall>p\<in>set (partition_products st g). plain_value p"
    using gen_seq_plain [OF assms] by (auto simp: partition_products_def)
qed

lemma ids_increasing:
  assumes "map product_id_of ps = map (\<lambda>k. Some (st + int k)) [0..<n]"
  shows "sorted_wrt (\<lambda>p q. \<exists>i j. product_id_of p = Some i \<and> product_id_of q = Some j \<and> i < j) ps"
proof -
  have len: "length ps = n" using arg_cong [OF assms, of length] by simp
  have id: "product_id_of (ps ! i) = Some (st + int i)" if "i < n" for i
  proof -
    have "map product_id_of ps ! i = map (\<lambda>k. Some (st + int k)) [0..<n] ! i"
      by (simp only: assms)
    then show ?thesis using that len by simp
  qed
  show ?thesis
    unfolding sorted_wrt_iff_nth_less len
  proof (intro allI impI)
    fix i j assume "i < j" "j < n"
    then have "product_id_of (ps ! i) = Some (st + int i)" "product_id_of (ps ! j) = Some (st + int j)"
      "st + int i < st + int j"
      using id by simp_all
    then show "\<exists>a b. product_id_of (ps ! i) = Some a \<and> product_id_of (ps ! j) = Some b \<and> a < b"
      by blast
  qed
qed

lemma tasks_start: "t \<in> set tasks \<Longrightarrow> 0 \<le> snd t"
  by (auto simp: tasks_eq)

text \<open>
  Claim C5. The artifact of every partition that succeeds is the text the writer's writes
  add up to: the array opener, the records with a separator before each but the first, the
  array closer. Read as a whole by the JSON reader, it is accepted, and the value read is
  the array of the records the partition generated, in the order generated: exactly
  \<open>PRODUCTS_PER_FILE\<close> records, with the product ids \<open>start, start + 1, ...\<close>, strictly
  increasing.
\<close>

theorem artifact_reads_back:
  "list_all (\<lambda>t. p_result (worker ev t) \<noteq> None \<longrightarrow>
      p_artifact (worker ev t)
        = Some (array_text (map dumps (partition_products (snd t) (snd (ev (fst t))))))
      \<and> parse_json (array_text (map dumps (partition_products (snd t) (snd (ev (fst t))))))
          = Some (PList (partition_products (snd t) (snd (ev (fst t)))))
      \<and> length (partition_products (snd t) (snd (ev (fst t)))) = PRODUCTS_PER_FILE
      \<and> map product_id_of (partition_products (snd t) (snd (ev (fst t))))
          = map (\<lambda>k. Some (snd t + int k)) [0..<PRODUCTS_PER_FILE]
      \<and> sorted_wrt (\<lambda>p q. \<exists>i j. product_id_of p = Some i \<and> product_id_of q = Some j \<and> i < j)
          (partition_products (snd t) (snd (ev (fst t))))) tasks"
  unfolding list_all_iff
proof (intro ballI impI conjI)
  fix t assume t: "t \<in> set tasks" and ok: "p_result (worker ev t) \<noteq> None"
  note st = tasks_start [OF t]
  note pp = partition_products_plain [OF st, of "snd (ev (fst t))"]
  show "p_artifact (worker ev t)
        = Some (array_text (map dumps (partition_products (snd t) (snd (ev (fst t))))))"
    by (rule worker_artifact [OF ok])
  show "parse_json (array_text (map dumps (partition_products (snd t) (snd (ev (fst t))))))
          = Some (PList (partition_products (snd t) (snd (ev (fst t)))))"
    by (rule parse_json_array_text [OF pp(1,2)])
  show "length (partition_products (snd t) (snd (ev (fst t)))) = PRODUCTS_PER_FILE"
    by (rule pp(3))
  show ids: "map product_id_of (partition_products (snd t) (snd (ev (fst t))))
          = map (\<lambda>k. Some (snd t + int k)) [0..<PRODUCTS_PER_FILE]"
    by (rule partition_product_ids)
  show "sorted_wrt (\<lambda>p q. \<exists>i j. product_id_of p = Some i \<and> product_id_of q = Some j \<and> i < j)
          (partition_products (snd t) (snd (ev (fst t))))"
    by (rule ids_increasing [OF ids])
qed

text \<open>Witness for C5: partition 1 of a run in which no file operation fails.\<close>

theorem artifact_reads_back_witness:
  "p_result (worker (\<lambda>i. (\<lambda>k. False, \<lambda>j. 0)) (1, 0)) \<noteq> None
   \<and> p_artifact (worker (\<lambda>i. (\<lambda>k. False, \<lambda>j. 0)) (1, 0))
       = Some (array_text (map dumps (partition_products 0 (\<lambda>j. 0))))
   \<and> parse_json (array_text (map dumps (partition_products 0 (\<lambda>j. 0))))
       = Some (PList (partition_products 0 (\<lambda>j. 0)))
   \<and> length (partition_products 0 (\<lambda>j. 0)) = PRODUCTS_PER_FILE"
proof -
  have ok: "p_result (worker (\<lambda>i. (\<lambda>k. False, \<lambda>j. 0)) (1, 0)) \<noteq> None"
    by (rule worker_no_failure) simp
  have t: "(1, 0) \<in> set tasks" by (simp add: tasks_eq)
  from artifact_reads_back [of "\<lambda>i. (\<lambda>k. False, \<lambda>j. 0)"] t ok
  show ?thesis unfolding list_all_iff by fastforce
qed

end
